theory Spec2Isabelle
  imports Complex_Main "HOL-Library.Char_ord" "HOL-Library.List_Lexorder" "HOL-Library.AList"
begin

section \<open>Python strings\<close>

text \<open>
  A Python \<open>str\<close> is modelled as a \<^typ>\<open>string\<close>; a \<^typ>\<open>char\<close> stands for one code
  point below 256. The order on strings is the lexicographic order by code point, which
  is how Python compares \<open>str\<close> values.
\<close>

definition is_space :: "char \<Rightarrow> bool" where
  \<comment> \<open>\<open>str.isspace\<close> on one code point below 256: TAB, LF, VT, FF, CR, FS, GS, RS, US,
      SPACE, NEL and NBSP.\<close>
  "is_space c = (let n = (of_char c :: nat) in
     (9 \<le> n \<and> n \<le> 13) \<or> (28 \<le> n \<and> n \<le> 32) \<or> n = 133 \<or> n = 160)"

definition is_line_boundary :: "char \<Rightarrow> bool" where
  \<comment> \<open>the line boundaries of \<open>str.splitlines\<close> below 256: LF, VT, FF, CR, FS, GS, RS, NEL.\<close>
  "is_line_boundary c = (let n = (of_char c :: nat) in
     (10 \<le> n \<and> n \<le> 13) \<or> (28 \<le> n \<and> n \<le> 30) \<or> n = 133)"

definition strip :: "string \<Rightarrow> string" where
  \<comment> \<open>\<open>s.strip()\<close>\<close>
  "strip s = rev (dropWhile is_space (rev (dropWhile is_space s)))"

definition startswith :: "string \<Rightarrow> string \<Rightarrow> bool" where
  \<comment> \<open>\<open>s.startswith(p)\<close>\<close>
  "startswith s p = (take (length p) s = p)"

definition endswith :: "string \<Rightarrow> string \<Rightarrow> bool" where
  \<comment> \<open>\<open>s.endswith(p)\<close>\<close>
  "endswith s p = (length p \<le> length s \<and> drop (length s - length p) s = p)"

fun contains :: "string \<Rightarrow> string \<Rightarrow> bool" where
  \<comment> \<open>\<open>sub in s\<close>\<close>
  "contains [] sub = (sub = [])"
| "contains (c # cs) sub = (startswith (c # cs) sub \<or> contains cs sub)"

fun split1 :: "string \<Rightarrow> string \<Rightarrow> string list" where
  \<comment> \<open>\<open>s.split(sep, 1)\<close> for a non-empty separator: the text before and after the first
      occurrence of \<open>sep\<close>, or \<open>s\<close> alone when there is none.\<close>
  "split1 [] sep = [[]]"
| "split1 (c # cs) sep =
     (if startswith (c # cs) sep then [[], drop (length sep) (c # cs)]
      else (case split1 cs sep of
              [a, b] \<Rightarrow> [c # a, b]
            | _ \<Rightarrow> [c # cs]))"

fun splitlines_from :: "string \<Rightarrow> string \<Rightarrow> string list" where
  \<comment> \<open>the scan of \<open>str.splitlines\<close>; the first argument is the current line, reversed.\<close>
  "splitlines_from acc [] = (if acc = [] then [] else [rev acc])"
| "splitlines_from acc (c # cs) =
     (if is_line_boundary c then
        rev acc # (case cs of
                     d # ds \<Rightarrow> if c = CHR 0x0D \<and> d = CHR 0x0A then splitlines_from [] ds
                               else splitlines_from [] (d # ds)
                   | [] \<Rightarrow> splitlines_from [] [])
      else splitlines_from (c # acc) cs)"

definition splitlines :: "string \<Rightarrow> string list" where
  \<comment> \<open>\<open>s.splitlines()\<close>\<close>
  "splitlines s = splitlines_from [] s"

fun join :: "string \<Rightarrow> string list \<Rightarrow> string" where
  \<comment> \<open>\<open>sep.join(xs)\<close>\<close>
  "join sep [] = []"
| "join sep [x] = x"
| "join sep (x # y # ys) = x @ sep @ join sep (y # ys)"

section \<open>Exceptions\<close>

datatype exn =
    PermissionError
  | FileNotFoundError
  | ValueError
  | IndexError
  | JSONDecodeError
  | AttributeError
  | TypeError

definition unpack2 :: "'a list \<Rightarrow> exn + ('a \<times> 'a)" where
  \<comment> \<open>\<open>a, b = xs\<close>: any other length raises ValueError.\<close>
  "unpack2 xs = (case xs of [a, b] \<Rightarrow> Inr (a, b) | _ \<Rightarrow> Inl ValueError)"

definition index :: "'a list \<Rightarrow> nat \<Rightarrow> exn + 'a" where
  \<comment> \<open>\<open>xs[i]\<close> for \<open>i \<ge> 0\<close>\<close>
  "index xs i = (if i < length xs then Inr (xs ! i) else Inl IndexError)"

section \<open>hosts\_manager.py\<close>

definition BLOCK_START :: string where
  "BLOCK_START = ''# AdultBlocker START''"

definition BLOCK_END :: string where
  "BLOCK_END = ''# AdultBlocker END''"

text \<open>
  The hosts file at \<open>hosts_path\<close>: its text when it exists, and whether the process may
  read and write it.
\<close>

record hosts_file =
  hosts_content :: "string option"
  hosts_readable :: bool
  hosts_writable :: bool

definition read_hosts :: "hosts_file \<Rightarrow> exn + string" where
  "read_hosts h =
     (case hosts_content h of
        None \<Rightarrow> Inl FileNotFoundError
      | Some content \<Rightarrow> if hosts_readable h then Inr content else Inl PermissionError)"

definition write_hosts :: "hosts_file \<Rightarrow> string \<Rightarrow> exn + hosts_file" where
  "write_hosts h content =
     (if hosts_writable h then Inr (h\<lparr>hosts_content := Some content\<rparr>)
      else Inl PermissionError)"

definition expand_step :: "string set \<Rightarrow> string \<Rightarrow> string set" where
  \<comment> \<open>the body of the loop of \<open>_expand_domains\<close>\<close>
  "expand_step expanded d0 =
     (let d = strip d0 in
      if d = [] then expanded
      else (let expanded1 = insert d expanded in
            if \<not> startswith d ''www.'' then insert (''www.'' @ d) expanded1
            else expanded1))"

definition expand_domains :: "string list \<Rightarrow> string list" where
  "expand_domains domains = sorted_list_of_set (foldl expand_step {} domains)"

definition has_entry :: "string list \<Rightarrow> string \<Rightarrow> bool" where
  \<comment> \<open>\<open>any(line.strip().endswith(f" {d}") for line in lines)\<close>\<close>
  "has_entry section_lines d = list_ex (\<lambda>line. endswith (strip line) (CHR '' '' # d)) section_lines"

definition is_block_active_in :: "string list \<Rightarrow> string \<Rightarrow> exn + bool" where
  \<comment> \<open>\<open>is_block_active\<close> after the file has been read\<close>
  "is_block_active_in domains content =
     (if \<not> contains content BLOCK_START \<or> \<not> contains content BLOCK_END then Inr False
      else (case index (split1 content BLOCK_START) 1 of
              Inl e \<Rightarrow> Inl e
            | Inr rest \<Rightarrow>
                (case index (split1 rest BLOCK_END) 0 of
                   Inl e \<Rightarrow> Inl e
                 | Inr block_section \<Rightarrow>
                     (let expanded = expand_domains domains in
                      Inr (list_all (has_entry (splitlines block_section)) expanded)))))"

definition is_block_active :: "string list \<Rightarrow> hosts_file \<Rightarrow> exn + bool" where
  "is_block_active domains h =
     (case read_hosts h of
        Inl e \<Rightarrow> Inl e
      | Inr content \<Rightarrow> is_block_active_in domains content)"

definition cut_section :: "string \<Rightarrow> exn + string" where
  \<comment> \<open>\<open>before, rest = content.split(BLOCK_START, 1); _, after = rest.split(BLOCK_END, 1)\<close>,
      giving \<open>before + after\<close>\<close>
  "cut_section content =
     (case unpack2 (split1 content BLOCK_START) of
        Inl e \<Rightarrow> Inl e
      | Inr (before, rest) \<Rightarrow>
          (case unpack2 (split1 rest BLOCK_END) of
             Inl e \<Rightarrow> Inl e
           | Inr (_, after) \<Rightarrow> Inr (before @ after)))"

definition block_lines :: "string list \<Rightarrow> string list" where
  "block_lines expanded =
     [BLOCK_START,
      ''# The following entries were added by AdultBlocker to intentionally block domains.'',
      ''# Remove this section to unblock (requires admin/root).'']
     @ concat (map (\<lambda>d. [''127.0.0.1 '' @ d, ''::1 '' @ d]) expanded)
     @ [BLOCK_END]"

definition block_text :: "string list \<Rightarrow> string" where
  "block_text expanded = join [CHR 0x0A] (block_lines expanded) @ [CHR 0x0A]"

definition end_line :: "string \<Rightarrow> string" where
  \<comment> \<open>\<open>if content and not content.endswith("\n"): content += "\n"\<close>\<close>
  "end_line content =
     (if content \<noteq> [] \<and> \<not> endswith content [CHR 0x0A] then content @ [CHR 0x0A]
      else content)"

definition new_content :: "string list \<Rightarrow> string \<Rightarrow> exn + string" where
  \<comment> \<open>the text that \<open>apply_block\<close> writes, from the text it has read\<close>
  "new_content domains content0 =
     (let expanded = expand_domains domains in
      case (if contains content0 BLOCK_START \<and> contains content0 BLOCK_END
            then cut_section content0 else Inr content0) of
        Inl e \<Rightarrow> Inl e
      | Inr content \<Rightarrow> Inr (end_line content @ block_text expanded))"

text \<open>
  \<open>flush_dns\<close> runs external commands and swallows every exception; it changes nothing
  of the hosts file and is left out of the state.
\<close>

definition apply_block :: "string list \<Rightarrow> hosts_file \<Rightarrow> exn + hosts_file" where
  "apply_block domains h =
     (case read_hosts h of
        Inl e \<Rightarrow> Inl e
      | Inr content \<Rightarrow>
          (case new_content domains content of
             Inl e \<Rightarrow> Inl e
           | Inr new \<Rightarrow> write_hosts h new))"

definition remove_block :: "hosts_file \<Rightarrow> exn + hosts_file" where
  "remove_block h =
     (case read_hosts h of
        Inl e \<Rightarrow> Inl e
      | Inr content \<Rightarrow>
          if contains content BLOCK_START \<and> contains content BLOCK_END then
            (case cut_section content of
               Inl e \<Rightarrow> Inl e
             | Inr remainder \<Rightarrow> write_hosts h remainder)
          else Inr h)"

section \<open>state\_store.py\<close>

text \<open>
  A value that \<open>json.loads\<close> returns. A Python \<open>float\<close> is taken as a real number: the
  rounding of floating-point arithmetic, infinities and NaN are not modelled. A \<open>dict\<close> is
  an association list in insertion order.
\<close>

datatype json =
    JNull
  | JBool bool
  | JInt int
  | JFloat real
  | JStr string
  | JArr "json list"
  | JObj "(string \<times> json) list"

type_synonym pydict = "(string \<times> json) list"

definition setdefault :: "pydict \<Rightarrow> string \<Rightarrow> json \<Rightarrow> pydict" where
  \<comment> \<open>\<open>d.setdefault(k, v)\<close>, as a statement\<close>
  "setdefault d k v = (case map_of d k of None \<Rightarrow> d @ [(k, v)] | Some _ \<Rightarrow> d)"

definition str_list :: "string list \<Rightarrow> json" where
  \<comment> \<open>a Python list of \<open>str\<close>\<close>
  "str_list xs = JArr (map JStr xs)"

definition DEFAULT_DOMAINS :: "string list" where
  "DEFAULT_DOMAINS = [''exampleadult.com'', ''www.exampleadult.com'']"

text \<open>
  The text of a file of the application directory, as \<open>json.loads\<close> sees it: either the
  serialisation of a value, which \<open>json.loads\<close> parses back to that value, or a text that
  \<open>json.loads\<close> rejects.
\<close>

datatype file_text = Malformed | Dumps json

definition json_loads :: "file_text \<Rightarrow> exn + json" where
  "json_loads raw = (case raw of Malformed \<Rightarrow> Inl JSONDecodeError | Dumps v \<Rightarrow> Inr v)"

definition json_dumps :: "json \<Rightarrow> file_text" where
  "json_dumps v = Dumps v"

text \<open>
  The application directory holds \<open>state.json\<close> (\<open>state_path\<close>) and \<open>state.tmp\<close>
  (\<open>state_path.with_suffix(".tmp")\<close>). The directory exists; whether the process may
  create and replace files in it is a flag.
\<close>

datatype path = StatePath | TmpPath

record store_fs =
  files :: "path \<Rightarrow> file_text option"
  dir_writable :: bool

datatype fs_op = WriteText path file_text | Replace path path

definition read_text :: "store_fs \<Rightarrow> path \<Rightarrow> exn + file_text" where
  "read_text fs p = (case files fs p of None \<Rightarrow> Inl FileNotFoundError | Some t \<Rightarrow> Inr t)"

fun do_op :: "fs_op \<Rightarrow> store_fs \<Rightarrow> exn + store_fs" where
  \<comment> \<open>\<open>p.write_text(t)\<close> and \<open>src.replace(dst)\<close>\<close>
  "do_op (WriteText p t) fs =
     (if dir_writable fs then Inr (fs\<lparr>files := (files fs)(p \<mapsto> t)\<rparr>)
      else Inl PermissionError)"
| "do_op (Replace src dst) fs =
     (case files fs src of
        None \<Rightarrow> Inl FileNotFoundError
      | Some t \<Rightarrow>
          if dir_writable fs then Inr (fs\<lparr>files := (files fs)(src := None, dst \<mapsto> t)\<rparr>)
          else Inl PermissionError)"

fun run_ops :: "fs_op list \<Rightarrow> store_fs \<Rightarrow> exn + store_fs" where
  "run_ops [] fs = Inr fs"
| "run_ops (op # ops) fs = (case do_op op fs of Inl e \<Rightarrow> Inl e | Inr fs1 \<Rightarrow> run_ops ops fs1)"

definition write_state_ops :: "pydict \<Rightarrow> fs_op list" where
  \<comment> \<open>the two file operations of \<open>_write_state\<close>, in order\<close>
  "write_state_ops data = [WriteText TmpPath (json_dumps (JObj data)), Replace TmpPath StatePath]"

definition write_state :: "pydict \<Rightarrow> store_fs \<Rightarrow> exn + store_fs" where
  "write_state data fs = run_ops (write_state_ops data) fs"

text \<open>
  The file systems that an interruption of a sequence of file operations can leave: the
  sequence stops between two operations, or inside a \<open>write_text\<close>, whose file then holds
  some part of the text (whatever that part is).
\<close>

inductive interrupted :: "fs_op list \<Rightarrow> store_fs \<Rightarrow> store_fs \<Rightarrow> bool" where
  stopped: "interrupted ops fs fs"
| torn: "dir_writable fs \<Longrightarrow>
           interrupted (WriteText p t # ops) fs (fs\<lparr>files := (files fs)(p \<mapsto> partial)\<rparr>)"
| later: "do_op op fs = Inr fs1 \<Longrightarrow> interrupted ops fs1 fs' \<Longrightarrow> interrupted (op # ops) fs fs'"



definition reset_state :: pydict where
  \<comment> \<open>\<open>reset\<close> in \<open>load\<close>\<close>
  "reset_state =
     [(''blocked_domains'', str_list DEFAULT_DOMAINS),
      (''pending_uninstall_started_at'', JNull),
      (''onboarding_completed'', JBool False)]"

definition fill_defaults :: "pydict \<Rightarrow> pydict" where
  \<comment> \<open>the three \<open>setdefault\<close> calls of \<open>load\<close> ("fill defaults if missing")\<close>
  "fill_defaults data =
     setdefault
       (setdefault
         (setdefault data ''blocked_domains'' (str_list DEFAULT_DOMAINS))
         ''pending_uninstall_started_at'' JNull)
       ''onboarding_completed'' (JBool False)"

definition try_load :: "store_fs \<Rightarrow> exn + pydict" where
  \<comment> \<open>the \<open>try\<close> block of \<open>load\<close>; \<open>setdefault\<close> on a value that is not a dict raises
      AttributeError\<close>
  "try_load fs =
     (case read_text fs StatePath of
        Inl e \<Rightarrow> Inl e
      | Inr raw \<Rightarrow>
          (case json_loads raw of
             Inl e \<Rightarrow> Inl e
           | Inr (JObj data) \<Rightarrow> Inr (fill_defaults data)
           | Inr _ \<Rightarrow> Inl AttributeError))"

definition load :: "store_fs \<Rightarrow> exn + (pydict \<times> store_fs)" where
  "load fs =
     (case try_load fs of
        Inr data \<Rightarrow> Inr (data, fs)
      | Inl _ \<Rightarrow>
          (case write_state reset_state fs of
             Inl e \<Rightarrow> Inl e
           | Inr fs' \<Rightarrow> Inr (reset_state, fs')))"

definition save :: "pydict \<Rightarrow> store_fs \<Rightarrow> exn + store_fs" where
  "save data fs = write_state data fs"

definition py_list :: "json \<Rightarrow> exn + json list" where
  \<comment> \<open>\<open>list(v)\<close>\<close>
  "py_list v =
     (case v of
        JArr xs \<Rightarrow> Inr xs
      | JStr s \<Rightarrow> Inr (map (\<lambda>c. JStr [c]) s)
      | JObj kvs \<Rightarrow> Inr (map (\<lambda>kv. JStr (fst kv)) kvs)
      | _ \<Rightarrow> Inl TypeError)"

definition get_domains :: "store_fs \<Rightarrow> exn + (json list \<times> store_fs)" where
  "get_domains fs =
     (case load fs of
        Inl e \<Rightarrow> Inl e
      | Inr (state, fs') \<Rightarrow>
          (case py_list (case map_of state ''blocked_domains'' of
                           Some v \<Rightarrow> v | None \<Rightarrow> str_list DEFAULT_DOMAINS) of
             Inl e \<Rightarrow> Inl e
           | Inr ds \<Rightarrow> Inr (ds, fs')))"

definition set_domains :: "string list \<Rightarrow> store_fs \<Rightarrow> exn + store_fs" where
  "set_domains domains fs =
     (case load fs of
        Inl e \<Rightarrow> Inl e
      | Inr (state, fs') \<Rightarrow>
          save (AList.update ''blocked_domains''
                  (str_list (map strip (filter (\<lambda>d. strip d \<noteq> []) domains))) state) fs')"

definition start_uninstall_timer :: "real \<Rightarrow> store_fs \<Rightarrow> exn + store_fs" where
  \<comment> \<open>the first argument is the value of \<open>time.time()\<close>\<close>
  "start_uninstall_timer now fs =
     (case load fs of
        Inl e \<Rightarrow> Inl e
      | Inr (state, fs') \<Rightarrow>
          save (AList.update ''pending_uninstall_started_at'' (JFloat now) state) fs')"

definition cancel_uninstall_timer :: "store_fs \<Rightarrow> exn + store_fs" where
  "cancel_uninstall_timer fs =
     (case load fs of
        Inl e \<Rightarrow> Inl e
      | Inr (state, fs') \<Rightarrow>
          save (AList.update ''pending_uninstall_started_at'' JNull state) fs')"

definition as_float :: "json option \<Rightarrow> real option" where
  \<comment> \<open>\<open>float(val) if isinstance(val, (int, float)) else None\<close>; a \<open>bool\<close> is an \<open>int\<close>\<close>
  "as_float val =
     (case val of
        Some (JInt i) \<Rightarrow> Some (real_of_int i)
      | Some (JFloat r) \<Rightarrow> Some r
      | Some (JBool b) \<Rightarrow> Some (if b then 1 else 0)
      | _ \<Rightarrow> None)"

definition get_uninstall_started_at :: "store_fs \<Rightarrow> exn + (real option \<times> store_fs)" where
  "get_uninstall_started_at fs =
     (case load fs of
        Inl e \<Rightarrow> Inl e
      | Inr (state, fs') \<Rightarrow> Inr (as_float (map_of state ''pending_uninstall_started_at''), fs'))"

definition uninstall_ready :: "int \<Rightarrow> real \<Rightarrow> store_fs \<Rightarrow> exn + (bool \<times> store_fs)" where
  \<comment> \<open>the second argument is the value of \<open>time.time()\<close>\<close>
  "uninstall_ready delay_seconds now fs =
     (case get_uninstall_started_at fs of
        Inl e \<Rightarrow> Inl e
      | Inr (None, fs') \<Rightarrow> Inr (False, fs')
      | Inr (Some started, fs') \<Rightarrow> Inr (real_of_int delay_seconds \<le> now - started, fs'))"



section \<open>ui.py\<close>

definition UNINSTALL_DELAY_SECONDS :: int where
  "UNINSTALL_DELAY_SECONDS = 15 * 60"

text \<open>
  Of \<open>AdultBlockerWindow\<close> the model keeps what its handlers change outside the widgets:
  the files behind \<open>self.state\<close> and \<open>self.hosts\<close>. What the user answers in a dialog is an
  argument of the handler, and so is the value of \<open>time.time()\<close>, taken once per handler.
  A handler that returns \<open>Inl\<close> lets the exception escape.
\<close>

record window =
  state :: store_fs
  hosts :: hosts_file

definition update_status :: "window \<Rightarrow> exn + window" where
  \<comment> \<open>\<open>_update_status\<close>: it reads the timer through \<open>get_uninstall_started_at\<close> and sets
      labels and buttons\<close>
  "update_status w =
     (case get_uninstall_started_at (state w) of
        Inl e \<Rightarrow> Inl e
      | Inr (_, fs) \<Rightarrow> Inr (w\<lparr>state := fs\<rparr>))"

definition require_timer_ready :: "real \<Rightarrow> bool \<Rightarrow> window \<Rightarrow> exn + (bool \<times> window)" where
  \<comment> \<open>\<open>start_now\<close>: the user answers Yes to "Timer needed"\<close>
  "require_timer_ready now start_now w =
     (case uninstall_ready UNINSTALL_DELAY_SECONDS now (state w) of
        Inl e \<Rightarrow> Inl e
      | Inr (True, fs) \<Rightarrow> Inr (True, w\<lparr>state := fs\<rparr>)
      | Inr (False, fs) \<Rightarrow>
          (case get_uninstall_started_at fs of
             Inl e \<Rightarrow> Inl e
           | Inr (None, fs1) \<Rightarrow>
               if start_now then
                 (case start_uninstall_timer now fs1 of
                    Inl e \<Rightarrow> Inl e
                  | Inr fs2 \<Rightarrow>
                      (case update_status (w\<lparr>state := fs2\<rparr>) of
                         Inl e \<Rightarrow> Inl e
                       | Inr w' \<Rightarrow> Inr (False, w')))
               else Inr (False, w\<lparr>state := fs1\<rparr>)
           | Inr (Some started, fs1) \<Rightarrow> Inr (False, w\<lparr>state := fs1\<rparr>)))"

definition remove_and_cancel :: "window \<Rightarrow> window" where
  \<comment> \<open>\<open>try: self.hosts.remove_block(); self.state.cancel_uninstall_timer()\<close> with both
      \<open>except\<close> clauses, which catch every exception and show a message\<close>
  "remove_and_cancel w =
     (case remove_block (hosts w) of
        Inl e \<Rightarrow> w
      | Inr h \<Rightarrow>
          (case cancel_uninstall_timer (state w) of
             Inl e \<Rightarrow> w\<lparr>hosts := h\<rparr>
           | Inr fs \<Rightarrow> w\<lparr>hosts := h, state := fs\<rparr>))"

definition uninstall_app :: "real \<Rightarrow> bool \<Rightarrow> bool \<Rightarrow> window \<Rightarrow> exn + window" where
  \<comment> \<open>\<open>confirm\<close>: the user answers Yes to "Uninstall App"\<close>
  "uninstall_app now start_now confirm w =
     (case require_timer_ready now start_now w of
        Inl e \<Rightarrow> Inl e
      | Inr (False, w1) \<Rightarrow> Inr w1
      | Inr (True, w1) \<Rightarrow> if \<not> confirm then Inr w1 else Inr (remove_and_cancel w1))"

definition proceed_uninstall :: "real \<Rightarrow> window \<Rightarrow> exn + window" where
  "proceed_uninstall now w =
     (case uninstall_ready UNINSTALL_DELAY_SECONDS now (state w) of
        Inl e \<Rightarrow> Inl e
      | Inr (False, fs) \<Rightarrow> Inr (w\<lparr>state := fs\<rparr>)
      | Inr (True, fs) \<Rightarrow> update_status (remove_and_cancel (w\<lparr>state := fs\<rparr>)))"

definition dialog_text :: "json list \<Rightarrow> exn + string" where
  \<comment> \<open>\<open>"\n".join(domains)\<close> in \<open>EditDomainsDialog.__init__\<close>: an item that is not a
      \<open>str\<close> raises TypeError\<close>
  "dialog_text domains =
     (if list_all (\<lambda>v. case v of JStr _ \<Rightarrow> True | _ \<Rightarrow> False) domains
      then Inr (join [CHR 0x0A] (map (\<lambda>v. case v of JStr s \<Rightarrow> s | _ \<Rightarrow> []) domains))
      else Inl TypeError)"

definition dialog_get_domains :: "string \<Rightarrow> string list" where
  \<comment> \<open>\<open>EditDomainsDialog.get_domains\<close> on the text of the editor\<close>
  "dialog_get_domains plain_text =
     map strip (filter (\<lambda>line. strip line \<noteq> []) (splitlines plain_text))"

definition edit_domains :: "real \<Rightarrow> bool \<Rightarrow> string option \<Rightarrow> window \<Rightarrow> exn + window" where
  \<comment> \<open>\<open>edited\<close>: the text of the editor when the user accepts the dialog, None when the
      user rejects it\<close>
  "edit_domains now start_now edited w =
     (case require_timer_ready now start_now w of
        Inl e \<Rightarrow> Inl e
      | Inr (False, w1) \<Rightarrow> Inr w1
      | Inr (True, w1) \<Rightarrow>
          (case get_domains (state w1) of
             Inl e \<Rightarrow> Inl e
           | Inr (domains, fs) \<Rightarrow>
               (case dialog_text domains of
                  Inl e \<Rightarrow> Inl e
                | Inr _ \<Rightarrow>
                    (case edited of
                       None \<Rightarrow> Inr (w1\<lparr>state := fs\<rparr>)
                     | Some plain_text \<Rightarrow>
                         (case set_domains (dialog_get_domains plain_text) fs of
                            Inl e \<Rightarrow> Inl e
                          | Inr fs' \<Rightarrow> update_status (w1\<lparr>state := fs'\<rparr>))))))"

section \<open>Substrings and splitting\<close>

lemma startswith_iff: "startswith s p \<longleftrightarrow> (\<exists>b. s = p @ b)"
  unfolding startswith_def
  by (metis append_eq_conv_conj append_take_drop_id)

lemma contains_iff: "contains s sub \<longleftrightarrow> (\<exists>a b. s = a @ sub @ b)"
proof (induction s)
  case Nil
  then show ?case by auto
next
  case (Cons c cs)
  show ?case
  proof
    assume "contains (c # cs) sub"
    then consider "startswith (c # cs) sub" | "contains cs sub" by auto
    then show "\<exists>a b. c # cs = a @ sub @ b"
    proof cases
      case 1
      then obtain b where "c # cs = sub @ b" by (auto simp: startswith_iff)
      then have "c # cs = [] @ sub @ b" by simp
      then show ?thesis by blast
    next
      case 2
      then obtain a b where "cs = a @ sub @ b" using Cons.IH by blast
      then have "c # cs = (c # a) @ sub @ b" by simp
      then show ?thesis by blast
    qed
  next
    assume "\<exists>a b. c # cs = a @ sub @ b"
    then obtain a b where ab: "c # cs = a @ sub @ b" by blast
    show "contains (c # cs) sub"
    proof (cases a)
      case Nil
      then have "startswith (c # cs) sub" using ab by (auto simp: startswith_iff)
      then show ?thesis by simp
    next
      case (Cons x a')
      then have "cs = a' @ sub @ b" using ab by simp
      then have "contains cs sub" using Cons.IH by blast
      then show ?thesis by simp
    qed
  qed
qed

lemma split1_not_contains: "\<not> contains s sep \<Longrightarrow> split1 s sep = [s]"
  by (induction s) auto

lemma startswith_append_long:
  "length p \<le> length u \<Longrightarrow> startswith (u @ v) p = startswith u p"
  by (simp add: startswith_def)

lemma split1_first:
  "sep \<noteq> [] \<Longrightarrow> \<not> contains (a @ butlast sep) sep \<Longrightarrow> split1 (a @ sep @ b) sep = [a, b]"
proof (induction a)
  case Nil
  then obtain c cs where "sep = c # cs" by (cases sep) auto
  then show ?case by (simp add: startswith_def)
next
  case (Cons x a)
  have ns: "\<not> startswith ((x # a) @ butlast sep) sep" and nc: "\<not> contains (a @ butlast sep) sep"
    using Cons.prems(2) by auto
  have "(x # a) @ sep @ b = ((x # a) @ butlast sep) @ (last sep # b)"
    using Cons.prems(1) by simp
  moreover have "length sep \<le> length ((x # a) @ butlast sep)" by simp
  ultimately have "\<not> startswith ((x # a) @ sep @ b) sep"
    using ns startswith_append_long by metis
  moreover have "split1 (a @ sep @ b) sep = [a, b]" using Cons.IH Cons.prems(1) nc by blast
  ultimately show ?case by simp
qed

lemma split1_contains:
  "sep \<noteq> [] \<Longrightarrow> contains s sep \<Longrightarrow>
     \<exists>a b. split1 s sep = [a, b] \<and> s = a @ sep @ b \<and> \<not> contains (a @ butlast sep) sep"
proof (induction s)
  case Nil
  then show ?case by simp
next
  case (Cons c cs)
  show ?case
  proof (cases "startswith (c # cs) sep")
    case True
    then obtain b where b: "c # cs = sep @ b" by (auto simp: startswith_iff)
    have nb: "\<not> contains (butlast sep) sep"
    proof
      assume "contains (butlast sep) sep"
      then obtain u v where "butlast sep = u @ sep @ v" by (auto simp: contains_iff)
      then have "length (butlast sep) = length (u @ sep @ v)" by simp
      then show False using Cons.prems(1) by (simp add: length_greater_0_conv [symmetric] del: length_greater_0_conv)
    qed
    have "split1 (c # cs) sep = [[], drop (length sep) (c # cs)]" using True by simp
    then have "split1 (c # cs) sep = [[], b]" by (simp add: b)
    moreover have "c # cs = [] @ sep @ b" using b by simp
    moreover have "\<not> contains ([] @ butlast sep) sep" using nb by simp
    ultimately show ?thesis by blast
  next
    case False
    then have "contains cs sep" using Cons.prems(2) by simp
    then obtain a b where ab: "split1 cs sep = [a, b]" "cs = a @ sep @ b"
      "\<not> contains (a @ butlast sep) sep" using Cons.IH Cons.prems(1) by blast
    have "(c # a) @ sep @ b = ((c # a) @ butlast sep) @ (last sep # b)"
      using Cons.prems(1) by simp
    moreover have "length sep \<le> length ((c # a) @ butlast sep)" by simp
    ultimately have "startswith ((c # a) @ butlast sep) sep = startswith ((c # a) @ sep @ b) sep"
      using startswith_append_long by metis
    then have "\<not> startswith ((c # a) @ butlast sep) sep" using False ab(2) by simp
    then have "\<not> contains ((c # a) @ butlast sep) sep" using ab(3) by simp
    then show ?thesis using False ab by auto
  qed
qed

lemma not_contains_butlast: "sep \<noteq> [] \<Longrightarrow> \<not> contains (butlast sep) sep"
proof
  assume "sep \<noteq> []" and "contains (butlast sep) sep"
  then obtain u v where "butlast sep = u @ sep @ v" by (auto simp: contains_iff)
  then have "length (butlast sep) = length (u @ sep @ v)" by simp
  then show False using \<open>sep \<noteq> []\<close>
    by (simp add: length_greater_0_conv [symmetric] del: length_greater_0_conv)
qed

lemma contains_mono: "contains d s \<Longrightarrow> contains (a @ d @ b) s"
proof -
  assume "contains d s"
  then obtain u v where "d = u @ s @ v" by (auto simp: contains_iff)
  then have "a @ d @ b = (a @ u) @ s @ (v @ b)" by simp
  then show ?thesis unfolding contains_iff by blast
qed

lemma startswith_stop: "c \<notin> set s \<Longrightarrow> startswith (a @ c # b) s = startswith a s"
proof (induction a arbitrary: s)
  case Nil
  then show ?case by (cases s) (auto simp: startswith_def)
next
  case (Cons x a)
  then show ?case by (cases s) (auto simp: startswith_def)
qed

lemma contains_across_char:
  "c \<notin> set s \<Longrightarrow> contains (a @ c # b) s \<longleftrightarrow> contains a s \<or> contains b s"
proof (induction a)
  case Nil
  then show ?case by (cases s) (auto simp: startswith_def)
next
  case (Cons x a)
  have "startswith ((x # a) @ c # b) s = startswith (x # a) s"
    using Cons.prems by (rule startswith_stop)
  then show ?case using Cons by auto
qed

lemma contains_skip_prefix:
  "s \<noteq> [] \<Longrightarrow> hd s \<notin> set p \<Longrightarrow> contains (p @ d) s = contains d s"
proof (induction p)
  case Nil
  then show ?case by simp
next
  case (Cons x p)
  then have "\<not> startswith ((x # p) @ d) s" by (cases s) (auto simp: startswith_def)
  then show ?case using Cons by simp
qed

lemma contains_lines:
  "c \<notin> set s \<Longrightarrow>
     contains (concat (map (\<lambda>l. l @ [c]) ls) @ t) s \<longleftrightarrow> (\<exists>l\<in>set ls. contains l s) \<or> contains t s"
proof (induction ls)
  case Nil
  then show ?case by simp
next
  case (Cons l ls)
  have "concat (map (\<lambda>l. l @ [c]) (l # ls)) @ t = l @ c # (concat (map (\<lambda>l. l @ [c]) ls) @ t)"
    by simp
  then show ?case using Cons contains_across_char [of c s l] by auto
qed

lemma join_lines: "xs \<noteq> [] \<Longrightarrow> join [c] xs @ [c] = concat (map (\<lambda>l. l @ [c]) xs)"
  by (induction "[c]" xs rule: join.induct) auto

section \<open>Domain expansion\<close>

lemma BLOCK_START_nonempty: "BLOCK_START \<noteq> []"
  by (simp add: BLOCK_START_def)

lemma BLOCK_END_nonempty: "BLOCK_END \<noteq> []"
  by (simp add: BLOCK_END_def)

lemma foldl_expand_step:
  "foldl expand_step A ds =
     A \<union> {e. \<exists>r\<in>set ds. strip r \<noteq> [] \<and>
              (e = strip r \<or> (\<not> startswith (strip r) ''www.'' \<and> e = ''www.'' @ strip r))}"
proof (induction ds arbitrary: A)
  case Nil
  then show ?case by simp
next
  case (Cons r ds)
  show ?case
    unfolding foldl_Cons Cons.IH
    by (auto simp: expand_step_def Let_def)
qed

lemma finite_foldl_expand_step: "finite A \<Longrightarrow> finite (foldl expand_step A ds)"
  by (induction ds arbitrary: A) (auto simp: expand_step_def Let_def)

lemma strip_empty_iff: "strip s = [] \<longleftrightarrow> (\<forall>c\<in>set s. is_space c)"
proof
  assume "strip s = []"
  then have "dropWhile is_space (rev (dropWhile is_space s)) = []" by (simp add: strip_def)
  then have "\<forall>c\<in>set (rev (dropWhile is_space s)). is_space c" by (simp add: dropWhile_eq_Nil_conv)
  then have "dropWhile is_space s = []"
    by (metis hd_dropWhile list.set_sel(1) set_rev)
  then show "\<forall>c\<in>set s. is_space c" by (simp add: dropWhile_eq_Nil_conv)
next
  assume "\<forall>c\<in>set s. is_space c"
  then show "strip s = []" by (auto simp: strip_def dest: set_dropWhileD)
qed

lemma set_expand_domains:
  "set (expand_domains domains) =
     {e. \<exists>r\<in>set domains. strip r \<noteq> [] \<and>
           (e = strip r \<or> (\<not> startswith (strip r) ''www.'' \<and> e = ''www.'' @ strip r))}"
proof -
  have "finite (foldl expand_step {} domains)" by (simp add: finite_foldl_expand_step)
  then have "set (expand_domains domains) = foldl expand_step {} domains"
    unfolding expand_domains_def by simp
  then show ?thesis by (simp add: foldl_expand_step)
qed

lemma strict_sorted_expand_domains: "sorted_wrt (<) (expand_domains domains)"
  unfolding expand_domains_def by simp

lemma expand_domains_empty_iff:
  "expand_domains domains = [] \<longleftrightarrow> (\<forall>r\<in>set domains. strip r = [])"
proof -
  have "expand_domains domains = [] \<longleftrightarrow> set (expand_domains domains) = {}" by simp
  also have "\<dots> \<longleftrightarrow> (\<forall>r\<in>set domains. strip r = [])"
    unfolding set_expand_domains by auto
  finally show ?thesis .
qed

text \<open>
  C4. \<open>_expand_domains\<close> is a total function of its argument. Its result holds exactly:
  each input entry stripped of surrounding whitespace, when that is not empty, and
  \<open>www.\<close> in front of such an entry when the entry does not start with \<open>www.\<close> (so
  nothing is added in front of an entry that has the prefix already). The result is
  strictly increasing in the lexicographic order: sorted, and without duplicates.
\<close>

theorem expand_domains_spec:
  "set (expand_domains domains) =
     {e. \<exists>r\<in>set domains. strip r \<noteq> [] \<and>
           (e = strip r \<or> (\<not> startswith (strip r) ''www.'' \<and> e = ''www.'' @ strip r))}
   \<and> sorted_wrt (<) (expand_domains domains)"
  using set_expand_domains strict_sorted_expand_domains by blast

theorem expand_domains_spec_witness:
  "set (expand_domains ['' example.com '', ''www.foo.org'', ''  '']) =
     {''example.com'', ''www.example.com'', ''www.foo.org''}
   \<and> sorted_wrt (<) (expand_domains ['' example.com '', ''www.foo.org'', ''  ''])"
proof -
  have s: "strip '' example.com '' = ''example.com''" "strip ''www.foo.org'' = ''www.foo.org''"
    "strip ''  '' = []"
    by (simp_all add: strip_def is_space_def)
  have "{e. \<exists>r\<in>set ['' example.com '', ''www.foo.org'', ''  '']. strip r \<noteq> [] \<and>
           (e = strip r \<or> (\<not> startswith (strip r) ''www.'' \<and> e = ''www.'' @ strip r))}
        = {''example.com'', ''www.example.com'', ''www.foo.org''}"
    by (simp add: s startswith_def Collect_disj_eq insert_commute)
  then show ?thesis
    using expand_domains_spec [of "['' example.com '', ''www.foo.org'', ''  '']"]
    by (simp only:)
qed

section \<open>The check of the block\<close>

lemma split1_shape: "split1 s sep = [s] \<or> (\<exists>a b. split1 s sep = [a, b])"
  by (induction s) (auto split: list.splits)

lemma index_split1_0: "\<exists>x. index (split1 s sep) 0 = Inr x"
  using split1_shape [of s sep] by (auto simp: index_def)

lemma is_block_active_read:
  "read_hosts h = Inr content \<Longrightarrow> is_block_active domains h = is_block_active_in domains content"
  by (simp add: is_block_active_def)

lemma is_block_active_in_absent:
  "\<not> contains content BLOCK_START \<or> \<not> contains content BLOCK_END \<Longrightarrow>
     is_block_active_in domains content = Inr False"
  by (auto simp: is_block_active_in_def)

lemma is_block_active_in_section:
  assumes "content = before @ BLOCK_START @ rest"
    and "\<not> contains (before @ butlast BLOCK_START) BLOCK_START"
    and "contains content BLOCK_END"
    and "split1 rest BLOCK_END = sect # others"
  shows "is_block_active_in domains content =
     Inr (\<forall>d\<in>set (expand_domains domains). \<exists>line\<in>set (splitlines sect).
            endswith (strip line) (CHR '' '' # d))"
proof -
  have s: "split1 content BLOCK_START = [before, rest]"
    using split1_first [OF BLOCK_START_nonempty assms(2)] assms(1) by simp
  have c: "contains content BLOCK_START" using assms(1) contains_iff by blast
  show ?thesis
    using s c assms(3,4)
    by (simp add: is_block_active_in_def index_def has_entry_def list_all_iff list_ex_iff)
qed

lemma is_block_active_in_between:
  assumes "content = before @ BLOCK_START @ sect @ BLOCK_END @ after"
    and "\<not> contains (before @ butlast BLOCK_START) BLOCK_START"
    and "\<not> contains (sect @ butlast BLOCK_END) BLOCK_END"
  shows "is_block_active_in domains content =
     Inr (\<forall>d\<in>set (expand_domains domains). \<exists>line\<in>set (splitlines sect).
            endswith (strip line) (CHR '' '' # d))"
proof -
  have "content = (before @ BLOCK_START @ sect) @ BLOCK_END @ after" using assms(1) by simp
  then have "contains content BLOCK_END" using contains_iff by blast
  moreover have "split1 (sect @ BLOCK_END @ after) BLOCK_END = [sect, after]"
    using split1_first [OF BLOCK_END_nonempty assms(3)] .
  ultimately show ?thesis
    using is_block_active_in_section [OF assms(1,2)] by blast
qed

lemma is_block_active_in_open:
  assumes "content = before @ BLOCK_START @ rest"
    and "\<not> contains (before @ butlast BLOCK_START) BLOCK_START"
    and "contains content BLOCK_END"
    and "\<not> contains rest BLOCK_END"
  shows "is_block_active_in domains content =
     Inr (\<forall>d\<in>set (expand_domains domains). \<exists>line\<in>set (splitlines rest).
            endswith (strip line) (CHR '' '' # d))"
proof -
  have "split1 rest BLOCK_END = [rest]" using assms(4) by (simp add: split1_not_contains)
  then show ?thesis using is_block_active_in_section [OF assms(1,2,3)] by blast
qed

lemma is_block_active_in_empty:
  assumes "expand_domains domains = []"
  shows "is_block_active_in domains content =
     Inr (contains content BLOCK_START \<and> contains content BLOCK_END)"
proof (cases "contains content BLOCK_START \<and> contains content BLOCK_END")
  case False
  then show ?thesis by (auto simp: is_block_active_in_def)
next
  case True
  then obtain a b where ab: "split1 content BLOCK_START = [a, b]"
    using split1_contains [OF BLOCK_START_nonempty] by blast
  obtain x where "index (split1 b BLOCK_END) 0 = Inr x" using index_split1_0 by blast
  then show ?thesis using True ab assms by (simp add: is_block_active_in_def index_def)
qed

text \<open>
  C3, as amended. Let \<open>is_block_active\<close> read the text \<open>content\<close> of the hosts file. If a
  marker is absent from \<open>content\<close>, the result is False. Otherwise take the text after the
  first start marker, up to the first end marker that follows it, or to the end of the
  file when no end marker follows. The result is True if and only if, for every domain of
  the expanded set, some line of that text, once stripped of surrounding whitespace, ends
  with a space followed by the domain.
\<close>

theorem is_block_active_spec:
  "read_hosts h = Inr content \<longrightarrow>
   (\<not> contains content BLOCK_START \<or> \<not> contains content BLOCK_END \<longrightarrow>
      is_block_active domains h = Inr False)
   \<and> (\<forall>before sect after.
        content = before @ BLOCK_START @ sect @ BLOCK_END @ after
        \<and> \<not> contains (before @ butlast BLOCK_START) BLOCK_START
        \<and> \<not> contains (sect @ butlast BLOCK_END) BLOCK_END \<longrightarrow>
        is_block_active domains h =
          Inr (\<forall>d\<in>set (expand_domains domains). \<exists>line\<in>set (splitlines sect).
                 endswith (strip line) (CHR '' '' # d)))
   \<and> (\<forall>before rest.
        content = before @ BLOCK_START @ rest
        \<and> \<not> contains (before @ butlast BLOCK_START) BLOCK_START
        \<and> contains content BLOCK_END \<and> \<not> contains rest BLOCK_END \<longrightarrow>
        is_block_active domains h =
          Inr (\<forall>d\<in>set (expand_domains domains). \<exists>line\<in>set (splitlines rest).
                 endswith (strip line) (CHR '' '' # d)))"
proof (intro conjI allI impI)
  assume "read_hosts h = Inr content"
    and "\<not> contains content BLOCK_START \<or> \<not> contains content BLOCK_END"
  then show "is_block_active domains h = Inr False"
    by (simp only: is_block_active_read is_block_active_in_absent)
next
  fix before sect after
  assume r: "read_hosts h = Inr content"
    and a: "content = before @ BLOCK_START @ sect @ BLOCK_END @ after
        \<and> \<not> contains (before @ butlast BLOCK_START) BLOCK_START
        \<and> \<not> contains (sect @ butlast BLOCK_END) BLOCK_END"
  show "is_block_active domains h =
          Inr (\<forall>d\<in>set (expand_domains domains). \<exists>line\<in>set (splitlines sect).
                 endswith (strip line) (CHR '' '' # d))"
    unfolding is_block_active_read [OF r]
    using a by (intro is_block_active_in_between [of content before sect after]) blast+
next
  fix before rest
  assume r: "read_hosts h = Inr content"
    and a: "content = before @ BLOCK_START @ rest
        \<and> \<not> contains (before @ butlast BLOCK_START) BLOCK_START
        \<and> contains content BLOCK_END \<and> \<not> contains rest BLOCK_END"
  show "is_block_active domains h =
          Inr (\<forall>d\<in>set (expand_domains domains). \<exists>line\<in>set (splitlines rest).
                 endswith (strip line) (CHR '' '' # d))"
    unfolding is_block_active_read [OF r]
    using a by (intro is_block_active_in_open [of content before rest]) blast+
qed

theorem is_block_active_spec_witness:
  "is_block_active [''a.com'']
     \<lparr>hosts_content = Some ([] @ BLOCK_START
         @ ([CHR 0x0A] @ ''127.0.0.1 a.com'' @ [CHR 0x0A] @ ''127.0.0.1 www.a.com'' @ [CHR 0x0A])
         @ BLOCK_END @ [CHR 0x0A]),
       hosts_readable = True, hosts_writable = False\<rparr> = Inr True
   \<and> is_block_active [''a.com'']
     \<lparr>hosts_content = Some ([] @ BLOCK_START
         @ ([CHR 0x0A] @ ''127.0.0.1 a.com'' @ [CHR 0x0A]) @ BLOCK_END @ [CHR 0x0A]),
       hosts_readable = True, hosts_writable = False\<rparr> = Inr False"
proof -
  let ?s1 = "[CHR 0x0A] @ ''127.0.0.1 a.com'' @ [CHR 0x0A] @ ''127.0.0.1 www.a.com'' @ [CHR 0x0A]"
  let ?s2 = "[CHR 0x0A] @ ''127.0.0.1 a.com'' @ [CHR 0x0A]"
  let ?c1 = "[] @ BLOCK_START @ ?s1 @ BLOCK_END @ [CHR 0x0A]"
  let ?c2 = "[] @ BLOCK_START @ ?s2 @ BLOCK_END @ [CHR 0x0A]"
  let ?h1 = "\<lparr>hosts_content = Some ?c1, hosts_readable = True, hosts_writable = False\<rparr>"
  let ?h2 = "\<lparr>hosts_content = Some ?c2, hosts_readable = True, hosts_writable = False\<rparr>"
  have r1: "read_hosts ?h1 = Inr ?c1" by (simp add: read_hosts_def)
  have r2: "read_hosts ?h2 = Inr ?c2" by (simp add: read_hosts_def)
  have n1: "\<not> contains ([] @ butlast BLOCK_START) BLOCK_START" by code_simp
  have n2: "\<not> contains (?s1 @ butlast BLOCK_END) BLOCK_END" by code_simp
  have n3: "\<not> contains (?s2 @ butlast BLOCK_END) BLOCK_END" by code_simp
  have w1: "(\<forall>d\<in>set (expand_domains [''a.com'']). \<exists>line\<in>set (splitlines ?s1).
              endswith (strip line) (CHR '' '' # d)) = True" by code_simp
  have w2: "(\<forall>d\<in>set (expand_domains [''a.com'']). \<exists>line\<in>set (splitlines ?s2).
              endswith (strip line) (CHR '' '' # d)) = False" by code_simp
  have "is_block_active [''a.com''] ?h1 =
          Inr (\<forall>d\<in>set (expand_domains [''a.com'']). \<exists>line\<in>set (splitlines ?s1).
                 endswith (strip line) (CHR '' '' # d))"
    by (rule is_block_active_spec [of ?h1 ?c1 "[''a.com'']", rule_format, OF r1,
          THEN conjunct2, THEN conjunct1, rule_format, of "[]" ?s1 "[CHR 0x0A]"])
       (intro conjI refl n1 n2)
  then have t1: "is_block_active [''a.com''] ?h1 = Inr True" by (simp only: w1)
  have "is_block_active [''a.com''] ?h2 =
          Inr (\<forall>d\<in>set (expand_domains [''a.com'']). \<exists>line\<in>set (splitlines ?s2).
                 endswith (strip line) (CHR '' '' # d))"
    by (rule is_block_active_spec [of ?h2 ?c2 "[''a.com'']", rule_format, OF r2,
          THEN conjunct2, THEN conjunct1, rule_format, of "[]" ?s2 "[CHR 0x0A]"])
       (intro conjI refl n1 n3)
  then have t2: "is_block_active [''a.com''] ?h2 = Inr False" by (simp only: w2)
  show ?thesis using t1 t2 by (intro conjI)
qed

text \<open>
  C3 as stated fails where a line has whitespace around it. Both markers are in the
  file, the expanded set is \<open>www.a.com\<close> alone, and the line \<open>" www.a.com"\<close> between the
  markers ends with a space followed by that domain; \<open>is_block_active\<close> strips the line
  first and returns False.
\<close>

theorem is_block_active_line_counterexample:
  "contains (''# AdultBlocker START'' @ [CHR 0x0A] @ '' www.a.com'' @ [CHR 0x0A]
              @ ''# AdultBlocker END'' @ [CHR 0x0A]) BLOCK_START
   \<and> contains (''# AdultBlocker START'' @ [CHR 0x0A] @ '' www.a.com'' @ [CHR 0x0A]
              @ ''# AdultBlocker END'' @ [CHR 0x0A]) BLOCK_END
   \<and> expand_domains [''www.a.com''] = [''www.a.com'']
   \<and> splitlines ([CHR 0x0A] @ '' www.a.com'' @ [CHR 0x0A]) = [[], '' www.a.com'']
   \<and> endswith '' www.a.com'' (CHR '' '' # ''www.a.com'')
   \<and> is_block_active [''www.a.com'']
        \<lparr>hosts_content = Some (''# AdultBlocker START'' @ [CHR 0x0A] @ '' www.a.com'' @ [CHR 0x0A]
                                  @ ''# AdultBlocker END'' @ [CHR 0x0A]),
          hosts_readable = True, hosts_writable = True\<rparr>
       = Inr False"
  by code_simp

text \<open>
  C10. The expansion of a domain list is empty exactly when every entry consists of
  whitespace only (the empty list among them). For such a list, \<open>is_block_active\<close> on a
  hosts file that can be read returns True exactly when both markers are in the file.
\<close>

theorem is_block_active_empty_expansion:
  "(expand_domains domains = [] \<longleftrightarrow> (\<forall>r\<in>set domains. \<forall>c\<in>set r. is_space c))
   \<and> (expand_domains domains = [] \<and> read_hosts h = Inr content \<longrightarrow>
        is_block_active domains h =
          Inr (contains content BLOCK_START \<and> contains content BLOCK_END))"
  by (simp add: expand_domains_empty_iff strip_empty_iff is_block_active_read
        is_block_active_in_empty)

theorem is_block_active_empty_expansion_witness:
  "expand_domains [''  '', []] = []
   \<and> is_block_active [''  '', []]
        \<lparr>hosts_content = Some ''# AdultBlocker START # AdultBlocker END'',
          hosts_readable = True, hosts_writable = False\<rparr> = Inr True
   \<and> is_block_active []
        \<lparr>hosts_content = Some ''# AdultBlocker START'',
          hosts_readable = True, hosts_writable = False\<rparr> = Inr False"
proof -
  let ?h = "\<lparr>hosts_content = Some ''# AdultBlocker START # AdultBlocker END'',
          hosts_readable = True, hosts_writable = False\<rparr>"
  let ?h' = "\<lparr>hosts_content = Some ''# AdultBlocker START'',
          hosts_readable = True, hosts_writable = False\<rparr>"
  have a: "\<forall>r\<in>set [''  '', []]. \<forall>c\<in>set r. is_space c" by (simp add: is_space_def)
  have a': "\<forall>r\<in>set ([] :: string list). \<forall>c\<in>set r. is_space c" by simp
  have r: "read_hosts ?h = Inr ''# AdultBlocker START # AdultBlocker END''"
    by (simp add: read_hosts_def)
  have r': "read_hosts ?h' = Inr ''# AdultBlocker START''"
    by (simp add: read_hosts_def)
  have b: "contains ''# AdultBlocker START # AdultBlocker END'' BLOCK_START = True"
    by (simp add: BLOCK_START_def startswith_def)
  have c: "contains ''# AdultBlocker START # AdultBlocker END'' BLOCK_END = True"
    by (simp add: BLOCK_END_def startswith_def)
  have c': "contains ''# AdultBlocker START'' BLOCK_END = False"
    by (simp add: BLOCK_END_def startswith_def)
  note T = is_block_active_empty_expansion
    [of "[''  '', []]" ?h "''# AdultBlocker START # AdultBlocker END''"]
  note T' = is_block_active_empty_expansion [of "[]" ?h' "''# AdultBlocker START''"]
  have e: "expand_domains [''  '', []] = []" using T a by blast
  have e': "expand_domains [] = []" using T' a' by blast
  have "is_block_active [''  '', []] ?h =
          Inr (contains ''# AdultBlocker START # AdultBlocker END'' BLOCK_START
               \<and> contains ''# AdultBlocker START # AdultBlocker END'' BLOCK_END)"
    using T e r by blast
  then have t: "is_block_active [''  '', []] ?h = Inr True" by (simp only: b c simp_thms)
  have "is_block_active [] ?h' =
          Inr (contains ''# AdultBlocker START'' BLOCK_START
               \<and> contains ''# AdultBlocker START'' BLOCK_END)"
    using T' e' r' by blast
  then have t': "is_block_active [] ?h' = Inr False" by (simp only: c' simp_thms)
  show ?thesis using e t t' by (intro conjI)
qed

section \<open>Applying and removing the block\<close>

lemma newline_not_in_markers:
  "CHR 0x0A \<notin> set BLOCK_START" "CHR 0x0A \<notin> set BLOCK_END"
  by (simp_all add: BLOCK_START_def BLOCK_END_def)

lemma cut_section_first:
  assumes "\<not> contains (pre @ butlast BLOCK_START) BLOCK_START"
    and "\<not> contains (body @ butlast BLOCK_END) BLOCK_END"
  shows "cut_section (pre @ BLOCK_START @ body @ BLOCK_END @ after) = Inr (pre @ after)"
proof -
  have "split1 (pre @ BLOCK_START @ body @ BLOCK_END @ after) BLOCK_START
          = [pre, body @ BLOCK_END @ after]"
    using split1_first [OF BLOCK_START_nonempty assms(1)] .
  moreover have "split1 (body @ BLOCK_END @ after) BLOCK_END = [body, after]"
    using split1_first [OF BLOCK_END_nonempty assms(2)] .
  ultimately show ?thesis by (simp add: cut_section_def unpack2_def)
qed

lemma end_line_cases: "end_line c = [] \<or> (\<exists>p. end_line c = p @ [CHR 0x0A])"
proof (cases "c \<noteq> [] \<and> \<not> endswith c [CHR 0x0A]")
  case True
  then show ?thesis by (simp add: end_line_def)
next
  case False
  then consider "c = []" | "endswith c [CHR 0x0A]" by blast
  then show ?thesis
  proof cases
    case 1
    then show ?thesis by (simp add: end_line_def)
  next
    case 2
    then have "c \<noteq> []" "drop (length c - 1) c = [CHR 0x0A]" by (auto simp: endswith_def)
    then have "c = take (length c - 1) c @ [CHR 0x0A]" by (metis append_take_drop_id)
    then show ?thesis using 2 by (auto simp: end_line_def)
  qed
qed

lemma end_line_idem: "end_line (p @ [CHR 0x0A]) = p @ [CHR 0x0A]"
  by (simp add: end_line_def endswith_def)

lemma end_line_no_start:
  assumes "\<not> contains c BLOCK_START"
  shows "\<not> contains (end_line c @ butlast BLOCK_START) BLOCK_START"
proof -
  have nb: "\<not> contains (butlast BLOCK_START) BLOCK_START"
    using not_contains_butlast [OF BLOCK_START_nonempty] .
  have ne: "\<not> contains (end_line c) BLOCK_START"
  proof (cases "c \<noteq> [] \<and> \<not> endswith c [CHR 0x0A]")
    case True
    then have "end_line c = c @ CHR 0x0A # []" by (simp add: end_line_def)
    then show ?thesis
      using contains_across_char [OF newline_not_in_markers(1), of c "[]"] assms
      by (simp add: BLOCK_START_nonempty)
  next
    case False
    then show ?thesis using assms by (auto simp: end_line_def)
  qed
  from end_line_cases [of c] show ?thesis
  proof
    assume "end_line c = []"
    then show ?thesis using nb by simp
  next
    assume "\<exists>p. end_line c = p @ [CHR 0x0A]"
    then obtain p where p: "end_line c = p @ [CHR 0x0A]" by blast
    have "\<not> contains p BLOCK_START"
      using ne contains_mono [of p BLOCK_START "[]" "[CHR 0x0A]"] p by auto
    then have "\<not> contains (p @ CHR 0x0A # butlast BLOCK_START) BLOCK_START"
      using contains_across_char [OF newline_not_in_markers(1), of p "butlast BLOCK_START"] nb
      by simp
    then show ?thesis using p by simp
  qed
qed

lemma contains_body:
  assumes "c \<notin> set s" and "s \<noteq> []"
  shows "contains ((c # concat (map (\<lambda>l. l @ [c]) ls)) @ t) s
           \<longleftrightarrow> (\<exists>l\<in>set ls. contains l s) \<or> contains t s"
proof -
  have "contains ([] @ c # (concat (map (\<lambda>l. l @ [c]) ls) @ t)) s
          \<longleftrightarrow> contains [] s \<or> contains (concat (map (\<lambda>l. l @ [c]) ls) @ t) s"
    using assms(1) by (rule contains_across_char)
  then show ?thesis using contains_lines [OF assms(1), of ls t] assms(2) by simp
qed

lemma block_text_shape:
  assumes "\<forall>d\<in>set expanded. \<not> contains d BLOCK_END"
  shows "\<exists>body. block_text expanded = BLOCK_START @ body @ BLOCK_END @ [CHR 0x0A]
           \<and> \<not> contains (body @ butlast BLOCK_END) BLOCK_END"
proof -
  let ?c1 = "''# The following entries were added by AdultBlocker to intentionally block domains.''"
  let ?c2 = "''# Remove this section to unblock (requires admin/root).''"
  let ?es = "concat (map (\<lambda>d. [''127.0.0.1 '' @ d, ''::1 '' @ d]) expanded)"
  define ls where "ls = ?c1 # ?c2 # ?es"
  define body where "body = CHR 0x0A # concat (map (\<lambda>l. l @ [CHR 0x0A]) ls)"
  have "block_lines expanded = BLOCK_START # ls @ [BLOCK_END]"
    by (simp add: block_lines_def ls_def)
  then have "block_text expanded = concat (map (\<lambda>l. l @ [CHR 0x0A]) (BLOCK_START # ls @ [BLOCK_END]))"
    unfolding block_text_def by (simp only: join_lines list.distinct not_False_eq_True)
  then have shape: "block_text expanded = BLOCK_START @ body @ BLOCK_END @ [CHR 0x0A]"
    by (simp add: body_def)
  have hd_end: "hd BLOCK_END = CHR ''#''" by (simp add: BLOCK_END_def)
  have c1: "\<not> contains ?c1 BLOCK_END" by code_simp
  have c2: "\<not> contains ?c2 BLOCK_END" by code_simp
  have es: "\<not> contains l BLOCK_END" if "l \<in> set ?es" for l
  proof -
    from that obtain d where d: "d \<in> set expanded" "l = ''127.0.0.1 '' @ d \<or> l = ''::1 '' @ d"
      by auto
    have "contains (''127.0.0.1 '' @ d) BLOCK_END = contains d BLOCK_END"
      by (rule contains_skip_prefix) (simp_all add: BLOCK_END_nonempty hd_end)
    moreover have "contains (''::1 '' @ d) BLOCK_END = contains d BLOCK_END"
      by (rule contains_skip_prefix) (simp_all add: BLOCK_END_nonempty hd_end)
    ultimately show ?thesis using d assms by auto
  qed
  have "\<not> contains l BLOCK_END" if "l \<in> set ls" for l
  proof -
    from that have "l = ?c1 \<or> l = ?c2 \<or> l \<in> set ?es" by (simp add: ls_def)
    then show ?thesis using c1 c2 es by blast
  qed
  then have ls: "\<not> (\<exists>l\<in>set ls. contains l BLOCK_END)" by blast
  have nb: "\<not> contains (butlast BLOCK_END) BLOCK_END"
    using not_contains_butlast [OF BLOCK_END_nonempty] .
  have "\<not> contains (body @ butlast BLOCK_END) BLOCK_END"
    unfolding body_def
    using contains_body [OF newline_not_in_markers(2) BLOCK_END_nonempty, of ls "butlast BLOCK_END"]
      ls nb by blast
  then show ?thesis using shape by blast
qed

lemma new_content_fresh:
  "\<not> contains c BLOCK_START \<Longrightarrow>
     new_content domains c = Inr (end_line c @ block_text (expand_domains domains))"
  by (simp add: new_content_def)

lemma cut_section_applied:
  assumes "\<not> contains c BLOCK_START"
    and "\<forall>d\<in>set expanded. \<not> contains d BLOCK_END"
  shows "contains (end_line c @ block_text expanded) BLOCK_START"
    and "contains (end_line c @ block_text expanded) BLOCK_END"
    and "cut_section (end_line c @ block_text expanded) = Inr (end_line c @ [CHR 0x0A])"
proof -
  obtain body where b: "block_text expanded = BLOCK_START @ body @ BLOCK_END @ [CHR 0x0A]"
    "\<not> contains (body @ butlast BLOCK_END) BLOCK_END"
    using block_text_shape [OF assms(2)] by blast
  show "contains (end_line c @ block_text expanded) BLOCK_START"
    unfolding b(1) contains_iff by blast
  have "end_line c @ BLOCK_START @ body @ BLOCK_END @ [CHR 0x0A]
          = (end_line c @ BLOCK_START @ body) @ BLOCK_END @ [CHR 0x0A]" by simp
  then show "contains (end_line c @ block_text expanded) BLOCK_END"
    unfolding b(1) contains_iff by blast
  show "cut_section (end_line c @ block_text expanded) = Inr (end_line c @ [CHR 0x0A])"
    unfolding b(1) using cut_section_first [OF end_line_no_start [OF assms(1)] b(2)] .
qed

lemma new_content_applied:
  assumes "\<not> contains c BLOCK_START"
    and "\<forall>d\<in>set (expand_domains domains). \<not> contains d BLOCK_END"
  shows "new_content domains (end_line c @ block_text (expand_domains domains))
           = Inr (end_line c @ [CHR 0x0A] @ block_text (expand_domains domains))"
  using cut_section_applied [OF assms] end_line_idem [of "end_line c"]
  by (simp add: new_content_def)

lemma apply_block_fresh:
  assumes "hosts_content h = Some content" "hosts_readable h" "hosts_writable h"
    and "\<not> contains content BLOCK_START"
  shows "apply_block domains h =
     Inr (h\<lparr>hosts_content := Some (end_line content @ block_text (expand_domains domains))\<rparr>)"
  using assms by (simp add: apply_block_def read_hosts_def write_hosts_def new_content_fresh)

lemma apply_block_again:
  assumes "hosts_readable h" "hosts_writable h"
    and "\<not> contains content BLOCK_START"
    and "\<forall>d\<in>set (expand_domains domains). \<not> contains d BLOCK_END"
  shows "apply_block domains
           (h\<lparr>hosts_content := Some (end_line content @ block_text (expand_domains domains))\<rparr>) =
     Inr (h\<lparr>hosts_content :=
            Some (end_line content @ [CHR 0x0A] @ block_text (expand_domains domains))\<rparr>)"
  using assms(1,2) new_content_applied [OF assms(3,4)]
  by (simp add: apply_block_def read_hosts_def write_hosts_def)

lemma remove_block_applied:
  assumes "hosts_readable h" "hosts_writable h"
    and "\<not> contains content BLOCK_START"
    and "\<forall>d\<in>set (expand_domains domains). \<not> contains d BLOCK_END"
  shows "remove_block
           (h\<lparr>hosts_content := Some (end_line content @ block_text (expand_domains domains))\<rparr>) =
     Inr (h\<lparr>hosts_content := Some (end_line content @ [CHR 0x0A])\<rparr>)"
  using assms(1,2) cut_section_applied [OF assms(3,4)]
  by (simp add: remove_block_def read_hosts_def write_hosts_def)

lemma end_line_length: "length content \<le> length (end_line content)"
  by (simp add: end_line_def)

lemma block_text_example:
  "block_text [''example.com'', ''www.example.com''] =
     ''# AdultBlocker START'' @ [CHR 0x0A]
     @ ''# The following entries were added by AdultBlocker to intentionally block domains.'' @ [CHR 0x0A]
     @ ''# Remove this section to unblock (requires admin/root).'' @ [CHR 0x0A]
     @ ''127.0.0.1 example.com'' @ [CHR 0x0A]
     @ ''::1 example.com'' @ [CHR 0x0A]
     @ ''127.0.0.1 www.example.com'' @ [CHR 0x0A]
     @ ''::1 www.example.com'' @ [CHR 0x0A]
     @ ''# AdultBlocker END'' @ [CHR 0x0A]"
  by (simp add: block_text_def block_lines_def BLOCK_START_def BLOCK_END_def)

text \<open>
  C1. The code does not do what the claim says: the second of two \<open>apply_block\<close> calls
  does not leave the file as the first one left it. Let the hosts file be readable and
  writable, its text without the start marker, and no expanded domain contain the end
  marker. The first call writes the text, ended with a newline when it is not empty,
  followed by the block. The second call cuts the block out from its start marker to its
  end marker, which leaves the newline that followed the end marker, and appends the
  block again: the file now has one more newline in front of the block, and differs from
  what the first call wrote.
\<close>

theorem apply_block_twice:
  assumes "hosts_content h = Some content" and "hosts_readable h" and "hosts_writable h"
    and "\<not> contains content BLOCK_START"
    and "\<forall>d\<in>set (expand_domains domains). \<not> contains d BLOCK_END"
  shows "apply_block domains h =
           Inr (h\<lparr>hosts_content := Some (end_line content @ block_text (expand_domains domains))\<rparr>)
    \<and> apply_block domains
           (h\<lparr>hosts_content := Some (end_line content @ block_text (expand_domains domains))\<rparr>) =
           Inr (h\<lparr>hosts_content :=
                  Some (end_line content @ [CHR 0x0A] @ block_text (expand_domains domains))\<rparr>)
    \<and> end_line content @ [CHR 0x0A] @ block_text (expand_domains domains)
         \<noteq> end_line content @ block_text (expand_domains domains)"
  using apply_block_fresh [OF assms(1-4)] apply_block_again [OF assms(2-5)] by simp

theorem apply_block_twice_witness:
  "apply_block [''example.com'']
     \<lparr>hosts_content = Some [], hosts_readable = True, hosts_writable = True\<rparr> =
     Inr \<lparr>hosts_content = Some
      (''# AdultBlocker START'' @ [CHR 0x0A]
       @ ''# The following entries were added by AdultBlocker to intentionally block domains.'' @ [CHR 0x0A]
       @ ''# Remove this section to unblock (requires admin/root).'' @ [CHR 0x0A]
       @ ''127.0.0.1 example.com'' @ [CHR 0x0A]
       @ ''::1 example.com'' @ [CHR 0x0A]
       @ ''127.0.0.1 www.example.com'' @ [CHR 0x0A]
       @ ''::1 www.example.com'' @ [CHR 0x0A]
       @ ''# AdultBlocker END'' @ [CHR 0x0A]),
      hosts_readable = True, hosts_writable = True\<rparr>
   \<and> apply_block [''example.com'']
     \<lparr>hosts_content = Some
      (''# AdultBlocker START'' @ [CHR 0x0A]
       @ ''# The following entries were added by AdultBlocker to intentionally block domains.'' @ [CHR 0x0A]
       @ ''# Remove this section to unblock (requires admin/root).'' @ [CHR 0x0A]
       @ ''127.0.0.1 example.com'' @ [CHR 0x0A]
       @ ''::1 example.com'' @ [CHR 0x0A]
       @ ''127.0.0.1 www.example.com'' @ [CHR 0x0A]
       @ ''::1 www.example.com'' @ [CHR 0x0A]
       @ ''# AdultBlocker END'' @ [CHR 0x0A]),
      hosts_readable = True, hosts_writable = True\<rparr> =
     Inr \<lparr>hosts_content = Some ([CHR 0x0A] @
      (''# AdultBlocker START'' @ [CHR 0x0A]
       @ ''# The following entries were added by AdultBlocker to intentionally block domains.'' @ [CHR 0x0A]
       @ ''# Remove this section to unblock (requires admin/root).'' @ [CHR 0x0A]
       @ ''127.0.0.1 example.com'' @ [CHR 0x0A]
       @ ''::1 example.com'' @ [CHR 0x0A]
       @ ''127.0.0.1 www.example.com'' @ [CHR 0x0A]
       @ ''::1 www.example.com'' @ [CHR 0x0A]
       @ ''# AdultBlocker END'' @ [CHR 0x0A])),
      hosts_readable = True, hosts_writable = True\<rparr>"
proof -
  let ?h = "\<lparr>hosts_content = Some [], hosts_readable = True, hosts_writable = True\<rparr>"
  have e: "expand_domains [''example.com''] = [''example.com'', ''www.example.com'']"
    by code_simp
  have n: "\<forall>d\<in>set (expand_domains [''example.com'']). \<not> contains d BLOCK_END"
    unfolding e by code_simp
  have s: "\<not> contains [] BLOCK_START" by (simp add: BLOCK_START_nonempty)
  have l: "end_line [] = []" by (simp add: end_line_def)
  show ?thesis
    using apply_block_twice [of ?h "[]" "[''example.com'']", OF _ _ _ s n]
    by (simp add: e l block_text_example)
qed

text \<open>
  C2. The code does not do what the claim says: \<open>remove_block\<close> after
  \<open>apply_block\<close> does not give back the text there was. Under the hypotheses of C1,
  \<open>remove_block\<close> cuts the block out from its start marker to its end marker and
  leaves everything else: the text the file had before, ended with a newline when it was
  not empty, and the newline that followed the end marker. This text is never the text
  there was before; an empty file becomes a file of one newline.
\<close>

theorem apply_then_remove:
  assumes "hosts_content h = Some content" and "hosts_readable h" and "hosts_writable h"
    and "\<not> contains content BLOCK_START"
    and "\<forall>d\<in>set (expand_domains domains). \<not> contains d BLOCK_END"
  shows "apply_block domains h =
           Inr (h\<lparr>hosts_content := Some (end_line content @ block_text (expand_domains domains))\<rparr>)
    \<and> remove_block
           (h\<lparr>hosts_content := Some (end_line content @ block_text (expand_domains domains))\<rparr>) =
           Inr (h\<lparr>hosts_content := Some (end_line content @ [CHR 0x0A])\<rparr>)
    \<and> end_line content @ [CHR 0x0A] \<noteq> content"
proof -
  have "length (end_line content @ [CHR 0x0A]) \<noteq> length content"
    using end_line_length [of content] by simp
  then have "end_line content @ [CHR 0x0A] \<noteq> content" by metis
  then show ?thesis
    using apply_block_fresh [OF assms(1-4)] remove_block_applied [OF assms(2-5)] by simp
qed

theorem apply_then_remove_witness:
  "apply_block [''example.com'']
     \<lparr>hosts_content = Some [], hosts_readable = True, hosts_writable = True\<rparr> =
     Inr \<lparr>hosts_content = Some
      (''# AdultBlocker START'' @ [CHR 0x0A]
       @ ''# The following entries were added by AdultBlocker to intentionally block domains.'' @ [CHR 0x0A]
       @ ''# Remove this section to unblock (requires admin/root).'' @ [CHR 0x0A]
       @ ''127.0.0.1 example.com'' @ [CHR 0x0A]
       @ ''::1 example.com'' @ [CHR 0x0A]
       @ ''127.0.0.1 www.example.com'' @ [CHR 0x0A]
       @ ''::1 www.example.com'' @ [CHR 0x0A]
       @ ''# AdultBlocker END'' @ [CHR 0x0A]),
      hosts_readable = True, hosts_writable = True\<rparr>
   \<and> remove_block
     \<lparr>hosts_content = Some
      (''# AdultBlocker START'' @ [CHR 0x0A]
       @ ''# The following entries were added by AdultBlocker to intentionally block domains.'' @ [CHR 0x0A]
       @ ''# Remove this section to unblock (requires admin/root).'' @ [CHR 0x0A]
       @ ''127.0.0.1 example.com'' @ [CHR 0x0A]
       @ ''::1 example.com'' @ [CHR 0x0A]
       @ ''127.0.0.1 www.example.com'' @ [CHR 0x0A]
       @ ''::1 www.example.com'' @ [CHR 0x0A]
       @ ''# AdultBlocker END'' @ [CHR 0x0A]),
      hosts_readable = True, hosts_writable = True\<rparr> =
     Inr \<lparr>hosts_content = Some [CHR 0x0A], hosts_readable = True, hosts_writable = True\<rparr>"
proof -
  let ?h = "\<lparr>hosts_content = Some [], hosts_readable = True, hosts_writable = True\<rparr>"
  have e: "expand_domains [''example.com''] = [''example.com'', ''www.example.com'']"
    by code_simp
  have n: "\<forall>d\<in>set (expand_domains [''example.com'']). \<not> contains d BLOCK_END"
    unfolding e by code_simp
  have s: "\<not> contains [] BLOCK_START" by (simp add: BLOCK_START_nonempty)
  have l: "end_line [] = []" by (simp add: end_line_def)
  show ?thesis
    using apply_then_remove [of ?h "[]" "[''example.com'']", OF _ _ _ s n]
    by (simp add: e l block_text_example)
qed

section \<open>The state store\<close>

lemma write_state_writable:
  "dir_writable fs \<Longrightarrow>
     write_state data fs =
       Inr (fs\<lparr>files := (files fs)(TmpPath := None, StatePath \<mapsto> json_dumps (JObj data))\<rparr>)"
  by (simp add: write_state_def write_state_ops_def fun_upd_twist)

lemma write_state_readonly: "\<not> dir_writable fs \<Longrightarrow> write_state data fs = Inl PermissionError"
  by (simp add: write_state_def write_state_ops_def)

lemma write_state_result:
  "write_state data fs = Inr fs' \<Longrightarrow>
     dir_writable fs \<and> dir_writable fs' \<and> files fs' StatePath = Some (json_dumps (JObj data))"
  by (cases "dir_writable fs") (auto simp: write_state_writable write_state_readonly)

lemma map_of_setdefault:
  "map_of (setdefault d k v) k' =
     (case map_of d k' of Some x \<Rightarrow> Some x | None \<Rightarrow> if k' = k then Some v else None)"
  by (auto simp: setdefault_def map_add_def split: option.splits)

lemma setdefault_present: "map_of d k = Some x \<Longrightarrow> setdefault d k v = d"
  by (simp add: setdefault_def)

lemma try_load_object:
  "files fs StatePath = Some (json_dumps (JObj data)) \<Longrightarrow> try_load fs = Inr (fill_defaults data)"
  by (simp add: try_load_def read_text_def json_loads_def json_dumps_def fill_defaults_def)




lemma load_ok: "try_load fs = Inr d \<Longrightarrow> load fs = Inr (d, fs)"
  by (simp add: load_def)


lemma load_readonly:
  "try_load fs = Inl e \<Longrightarrow> \<not> dir_writable fs \<Longrightarrow> load fs = Inl PermissionError"
  by (simp add: load_def write_state_readonly)


lemma load_keeps_flag: "load fs = Inr (st, fs') \<Longrightarrow> dir_writable fs' = dir_writable fs"
  by (cases "try_load fs"; cases "dir_writable fs")
     (auto simp: load_def write_state_writable write_state_readonly)

lemma load_after_save:
  "save st fs = Inr fs1 \<Longrightarrow> load fs1 = Inr (fill_defaults st, fs1)"
  using write_state_result [of st fs fs1] by (simp add: save_def try_load_object load_ok)

lemma map_of_fill_defaults_present:
  "map_of data k = Some x \<Longrightarrow> map_of (fill_defaults data) k = Some x"
  by (simp add: fill_defaults_def map_of_setdefault)

lemma get_started_after_update:
  assumes "save (AList.update ''pending_uninstall_started_at'' v st) fs' = Inr fs1"
  shows "get_uninstall_started_at fs1 = Inr (as_float (Some v), fs1)"
proof -
  have "map_of (AList.update ''pending_uninstall_started_at'' v st) ''pending_uninstall_started_at''
          = Some v"
    by (simp add: update_conv')
  then have "map_of (fill_defaults (AList.update ''pending_uninstall_started_at'' v st))
          ''pending_uninstall_started_at'' = Some v"
    by (rule map_of_fill_defaults_present)
  then show ?thesis
    using load_after_save [OF assms] by (simp add: get_uninstall_started_at_def)
qed


lemma cancel_uninstall_timer_cleared:
  assumes "cancel_uninstall_timer fs = Inr fs1"
  shows "get_uninstall_started_at fs1 = Inr (None, fs1)"
proof -
  from assms obtain st fs' where
    "save (AList.update ''pending_uninstall_started_at'' JNull st) fs' = Inr fs1"
    by (auto simp: cancel_uninstall_timer_def split: sum.splits)
  then show ?thesis using get_started_after_update by (fastforce simp: as_float_def)
qed









inductive_cases interrupted_ConsE: "interrupted (op # ops) fs fs'"








section \<open>The persisted domain list\<close>





lemma load_after_update_other:
  assumes "save (AList.update k v st) fs0 = Inr fs1" and "k' \<noteq> k" and "map_of st k' = Some x"
  shows "\<exists>st1. load fs1 = Inr (st1, fs1) \<and> map_of st1 k' = Some x"
proof -
  have "map_of (AList.update k v st) k' = Some x" using assms(2,3) by (simp add: update_conv')
  then have "map_of (fill_defaults (AList.update k v st)) k' = Some x"
    by (rule map_of_fill_defaults_present)
  then show ?thesis using load_after_save [OF assms(1)] by blast
qed









section \<open>The handlers of the window and the timer\<close>

lemma as_float_Some: "as_float val = Some t \<Longrightarrow> \<exists>v. val = Some v"
  by (cases val) (simp_all add: as_float_def)

lemma load_timer_not_reset:
  assumes "load s = Inr (st, fs)"
    and "as_float (map_of st ''pending_uninstall_started_at'') = Some t"
  shows "fs = s"
proof (cases "try_load s")
  case (Inr d)
  then show ?thesis using assms(1) by (simp add: load_def)
next
  case (Inl e)
  then have "st = reset_state" using assms(1) by (auto simp: load_def split: sum.splits)
  then have "as_float (map_of st ''pending_uninstall_started_at'') = None"
    by (simp add: reset_state_def as_float_def)
  then show ?thesis using assms(2) by simp
qed

lemma uninstall_ready_True:
  assumes "uninstall_ready d now s = Inr (True, fs)"
  obtains st t where "load s = Inr (st, s)" and "fs = s"
    and "as_float (map_of st ''pending_uninstall_started_at'') = Some t"
    and "real_of_int d \<le> now - t"
proof (cases "load s")
  case (Inl e)
  then show ?thesis using assms
    by (simp add: uninstall_ready_def get_uninstall_started_at_def)
next
  case (Inr r)
  obtain st fs0 where r: "r = (st, fs0)" by (cases r)
  show ?thesis
  proof (cases "as_float (map_of st ''pending_uninstall_started_at'')")
    case None
    then show ?thesis using assms Inr r
      by (simp add: uninstall_ready_def get_uninstall_started_at_def)
  next
    case (Some t)
    then have f: "fs = fs0" and le: "real_of_int d \<le> now - t"
      using assms Inr r by (simp_all add: uninstall_ready_def get_uninstall_started_at_def)
    have "fs0 = s" using Inr r Some by (intro load_timer_not_reset [of s st fs0 t]) simp_all
    then show ?thesis using that [of st t] Inr r Some f le by simp
  qed
qed

lemma get_started_of_load:
  "load s = Inr (st, fs) \<Longrightarrow>
     get_uninstall_started_at s = Inr (as_float (map_of st ''pending_uninstall_started_at''), fs)"
  by (simp add: get_uninstall_started_at_def)

lemma uninstall_ready_of_started:
  "get_uninstall_started_at s = Inr (Some t, fs) \<Longrightarrow>
     uninstall_ready d now s = Inr (real_of_int d \<le> now - t, fs)"
  by (simp add: uninstall_ready_def)

lemma window_state_same: "w\<lparr>state := state w\<rparr> = w"
  by simp

lemma proceed_uninstall_failed:
  assumes "uninstall_ready UNINSTALL_DELAY_SECONDS now (state w) = Inr (True, fs)"
    and "remove_block (hosts w) = Inl e"
  shows "proceed_uninstall now w = Inr w"
proof -
  from assms(1) obtain st t where l: "load (state w) = Inr (st, state w)" and f: "fs = state w"
    and a: "as_float (map_of st ''pending_uninstall_started_at'') = Some t"
    by (rule uninstall_ready_True)
  have r: "remove_and_cancel w = w" using assms(2) by (simp add: remove_and_cancel_def)
  have u: "update_status w = Inr w"
    by (simp add: update_status_def get_started_of_load [OF l])
  show ?thesis using assms(1) f r u by (simp add: proceed_uninstall_def)
qed

lemma require_timer_ready_True:
  assumes "uninstall_ready UNINSTALL_DELAY_SECONDS now (state w) = Inr (True, fs)"
  shows "require_timer_ready now start_now w = Inr (True, w)"
proof -
  from assms obtain st t where f: "fs = state w" by (rule uninstall_ready_True)
  then show ?thesis using assms by (simp add: require_timer_ready_def)
qed

lemma uninstall_app_failed:
  assumes "uninstall_ready UNINSTALL_DELAY_SECONDS now (state w) = Inr (True, fs)"
    and "remove_block (hosts w) = Inl e"
  shows "uninstall_app now start_now True w = Inr w"
  using require_timer_ready_True [OF assms(1)] assms(2)
  by (simp add: uninstall_app_def remove_and_cancel_def)

lemma remove_and_cancel_done:
  assumes "load (state w) = Inr (st, state w)"
    and "remove_block (hosts w) = Inr h" and "dir_writable (state w)"
  shows "\<exists>fs'. remove_and_cancel w = w\<lparr>hosts := h, state := fs'\<rparr>
     \<and> get_uninstall_started_at fs' = Inr (None, fs')"
proof -
  obtain fs' where c: "cancel_uninstall_timer (state w) = Inr fs'"
    using assms(1,3) by (simp add: cancel_uninstall_timer_def save_def write_state_writable)
  have "remove_and_cancel w = w\<lparr>hosts := h, state := fs'\<rparr>"
    using assms(2) c by (simp add: remove_and_cancel_def)
  then show ?thesis using cancel_uninstall_timer_cleared [OF c] by blast
qed

lemma sensitive_done:
  assumes "uninstall_ready UNINSTALL_DELAY_SECONDS now (state w) = Inr (True, fs)"
    and "remove_block (hosts w) = Inr h" and "dir_writable (state w)"
  shows "\<exists>fs'. proceed_uninstall now w = Inr (w\<lparr>hosts := h, state := fs'\<rparr>)
     \<and> uninstall_app now start_now True w = Inr (w\<lparr>hosts := h, state := fs'\<rparr>)
     \<and> get_uninstall_started_at fs' = Inr (None, fs')"
proof -
  from assms(1) obtain st t where l: "load (state w) = Inr (st, state w)" and f: "fs = state w"
    by (rule uninstall_ready_True)
  obtain fs' where r: "remove_and_cancel w = w\<lparr>hosts := h, state := fs'\<rparr>"
    and g: "get_uninstall_started_at fs' = Inr (None, fs')"
    using remove_and_cancel_done [OF l assms(2,3)] by blast
  have "update_status (w\<lparr>hosts := h, state := fs'\<rparr>) = Inr (w\<lparr>hosts := h, state := fs'\<rparr>)"
    using g by (simp add: update_status_def)
  then have "proceed_uninstall now w = Inr (w\<lparr>hosts := h, state := fs'\<rparr>)"
    using assms(1) f r by (simp add: proceed_uninstall_def)
  moreover have "uninstall_app now start_now True w = Inr (w\<lparr>hosts := h, state := fs'\<rparr>)"
    using require_timer_ready_True [OF assms(1)] r by (simp add: uninstall_app_def)
  ultimately show ?thesis using g by blast
qed

lemma get_domains_state:
  assumes "load s = Inr (st, s)" and "get_domains s = Inr (ds, fs)"
  shows "fs = s"
  using assms
  by (cases "py_list (case map_of st ''blocked_domains'' of
                        Some v \<Rightarrow> v | None \<Rightarrow> str_list DEFAULT_DOMAINS)")
     (simp_all add: get_domains_def)

lemma set_domains_keeps_timer:
  assumes "load s = Inr (st, s)"
    and "as_float (map_of st ''pending_uninstall_started_at'') = Some t"
    and "set_domains domains s = Inr fs'"
  shows "get_uninstall_started_at fs' = Inr (Some t, fs')"
proof -
  obtain v where v: "map_of st ''pending_uninstall_started_at'' = Some v"
    using as_float_Some [OF assms(2)] by blast
  have s: "save (AList.update ''blocked_domains''
        (str_list (map strip (filter (\<lambda>d. strip d \<noteq> []) domains))) st) s = Inr fs'"
    using assms(1,3) by (simp add: set_domains_def)
  have "''pending_uninstall_started_at'' \<noteq> ''blocked_domains''" by simp
  then obtain st1 where "load fs' = Inr (st1, fs')"
    and "map_of st1 ''pending_uninstall_started_at'' = Some v"
    using load_after_update_other [OF s _ v] by blast
  then show ?thesis using assms(2) v by (simp add: get_uninstall_started_at_def)
qed

lemma edit_domains_keeps_timer:
  assumes r: "uninstall_ready UNINSTALL_DELAY_SECONDS now (state w) = Inr (True, fs)"
    and e: "edit_domains now start_now edited w = Inr w'"
  shows "hosts w' = hosts w
     \<and> uninstall_ready UNINSTALL_DELAY_SECONDS now (state w') = Inr (True, state w')"
proof -
  from r obtain st t where l: "load (state w) = Inr (st, state w)" and f: "fs = state w"
    and a: "as_float (map_of st ''pending_uninstall_started_at'') = Some t"
    and le: "real_of_int UNINSTALL_DELAY_SECONDS \<le> now - t"
    by (rule uninstall_ready_True)
  have q: "require_timer_ready now start_now w = Inr (True, w)"
    using require_timer_ready_True [OF r] .
  have same: "hosts w = hosts w \<and>
      uninstall_ready UNINSTALL_DELAY_SECONDS now (state w) = Inr (True, state w)"
    using r f by simp
  show ?thesis
  proof (cases "get_domains (state w)")
    case (Inl x)
    then show ?thesis using e q by (simp add: edit_domains_def)
  next
    case (Inr p)
    obtain ds fs0 where p: "p = (ds, fs0)" by (cases p)
    have fs0: "fs0 = state w" using get_domains_state [OF l] Inr p by simp
    show ?thesis
    proof (cases "dialog_text ds")
      case (Inl x)
      then show ?thesis using e q Inr p by (simp add: edit_domains_def)
    next
      case dt: (Inr shown)
      show ?thesis
      proof (cases edited)
        case None
        then have "w' = w" using e q Inr p dt fs0 by (simp add: edit_domains_def)
        then show ?thesis using same by simp
      next
        case (Some plain_text)
        show ?thesis
        proof (cases "set_domains (dialog_get_domains plain_text) (state w)")
          case (Inl x)
          then show ?thesis using e q Inr p dt fs0 Some by (simp add: edit_domains_def)
        next
          case sd: (Inr fs1)
          have g: "get_uninstall_started_at fs1 = Inr (Some t, fs1)"
            using set_domains_keeps_timer [OF l a sd] .
          have "update_status (w\<lparr>state := fs1\<rparr>) = Inr (w\<lparr>state := fs1\<rparr>)"
            using g by (simp add: update_status_def)
          then have "w' = w\<lparr>state := fs1\<rparr>"
            using e q Inr p dt fs0 Some sd by (simp add: edit_domains_def)
          then show ?thesis using uninstall_ready_of_started [OF g] le by simp
        qed
      qed
    qed
  qed
qed

text \<open>
  C6, as amended. Let the timer be ready: \<open>uninstall_ready\<close> returns True for the
  15-minute delay. Then the state file was read as it is. If \<open>remove_block\<close> raises,
  "turn off blocking" and a confirmed "uninstall app" catch the exception and change
  nothing: the timer stays as it was. If \<open>remove_block\<close> succeeds and the state file can
  be written, both handlers leave the hosts file that \<open>remove_block\<close> wrote and a
  state with no timer. "Edit domains", whenever it returns, leaves the hosts file alone
  and the timer ready still: it never cancels it.
\<close>

theorem sensitive_operations_timer:
  assumes "uninstall_ready UNINSTALL_DELAY_SECONDS now (state w) = Inr (True, fs)"
  shows "fs = state w
   \<and> (remove_block (hosts w) = Inl e \<longrightarrow>
        proceed_uninstall now w = Inr w \<and> uninstall_app now start_now True w = Inr w)
   \<and> (remove_block (hosts w) = Inr h \<and> dir_writable (state w) \<longrightarrow>
        (\<exists>fs'. proceed_uninstall now w = Inr (w\<lparr>hosts := h, state := fs'\<rparr>)
           \<and> uninstall_app now start_now True w = Inr (w\<lparr>hosts := h, state := fs'\<rparr>)
           \<and> get_uninstall_started_at fs' = Inr (None, fs')))
   \<and> (edit_domains now start_now edited w = Inr w' \<longrightarrow>
        hosts w' = hosts w
        \<and> uninstall_ready UNINSTALL_DELAY_SECONDS now (state w') = Inr (True, state w'))"
proof (intro conjI impI)
  show "fs = state w" using assms by (rule uninstall_ready_True)
next
  assume "remove_block (hosts w) = Inl e"
  then show "proceed_uninstall now w = Inr w"
    by (rule proceed_uninstall_failed [OF assms])
next
  assume "remove_block (hosts w) = Inl e"
  then show "uninstall_app now start_now True w = Inr w"
    by (rule uninstall_app_failed [OF assms])
next
  assume a: "remove_block (hosts w) = Inr h \<and> dir_writable (state w)"
  show "\<exists>fs'. proceed_uninstall now w = Inr (w\<lparr>hosts := h, state := fs'\<rparr>)
           \<and> uninstall_app now start_now True w = Inr (w\<lparr>hosts := h, state := fs'\<rparr>)
           \<and> get_uninstall_started_at fs' = Inr (None, fs')"
    using sensitive_done [OF assms conjunct1 [OF a] conjunct2 [OF a]] .
next
  assume e: "edit_domains now start_now edited w = Inr w'"
  show "hosts w' = hosts w"
    using edit_domains_keeps_timer [OF assms e] by (rule conjunct1)
  show "uninstall_ready UNINSTALL_DELAY_SECONDS now (state w') = Inr (True, state w')"
    using edit_domains_keeps_timer [OF assms e] by (rule conjunct2)
qed

theorem sensitive_operations_timer_witness:
  "uninstall_app 900 False True
       \<lparr>state = \<lparr>files = (\<lambda>p. None)(StatePath \<mapsto> json_dumps (JObj
           [(''blocked_domains'', str_list [''a.com'']),
            (''pending_uninstall_started_at'', JFloat 0),
            (''onboarding_completed'', JBool True)])),
         dir_writable = True\<rparr>,
        hosts = \<lparr>hosts_content = Some (''# AdultBlocker START'' @ [CHR 0x0A] @ ''127.0.0.1 a.com''
           @ [CHR 0x0A] @ ''# AdultBlocker END'' @ [CHR 0x0A]),
         hosts_readable = True, hosts_writable = False\<rparr>\<rparr>
     = Inr \<lparr>state = \<lparr>files = (\<lambda>p. None)(StatePath \<mapsto> json_dumps (JObj
           [(''blocked_domains'', str_list [''a.com'']),
            (''pending_uninstall_started_at'', JFloat 0),
            (''onboarding_completed'', JBool True)])),
         dir_writable = True\<rparr>,
        hosts = \<lparr>hosts_content = Some (''# AdultBlocker START'' @ [CHR 0x0A] @ ''127.0.0.1 a.com''
           @ [CHR 0x0A] @ ''# AdultBlocker END'' @ [CHR 0x0A]),
         hosts_readable = True, hosts_writable = False\<rparr>\<rparr>
   \<and> (\<exists>fs'. proceed_uninstall 900
       \<lparr>state = \<lparr>files = (\<lambda>p. None)(StatePath \<mapsto> json_dumps (JObj
           [(''blocked_domains'', str_list [''a.com'']),
            (''pending_uninstall_started_at'', JFloat 0),
            (''onboarding_completed'', JBool True)])),
         dir_writable = True\<rparr>,
        hosts = \<lparr>hosts_content = Some (''# AdultBlocker START'' @ [CHR 0x0A] @ ''127.0.0.1 a.com''
           @ [CHR 0x0A] @ ''# AdultBlocker END'' @ [CHR 0x0A]),
         hosts_readable = True, hosts_writable = True\<rparr>\<rparr>
     = Inr \<lparr>state = fs',
        hosts = \<lparr>hosts_content = Some [CHR 0x0A],
         hosts_readable = True, hosts_writable = True\<rparr>\<rparr>
     \<and> get_uninstall_started_at fs' = Inr (None, fs'))"
proof -
  let ?ts = "[(''blocked_domains'', str_list [''a.com'']),
            (''pending_uninstall_started_at'', JFloat 0),
            (''onboarding_completed'', JBool True)]"
  let ?f = "\<lparr>files = (\<lambda>p. None)(StatePath \<mapsto> json_dumps (JObj ?ts)), dir_writable = True\<rparr>"
  let ?c = "''# AdultBlocker START'' @ [CHR 0x0A] @ ''127.0.0.1 a.com''
           @ [CHR 0x0A] @ ''# AdultBlocker END'' @ [CHR 0x0A]"
  let ?h0 = "\<lparr>hosts_content = Some ?c, hosts_readable = True, hosts_writable = False\<rparr>"
  let ?h1 = "\<lparr>hosts_content = Some ?c, hosts_readable = True, hosts_writable = True\<rparr>"
  let ?h1' = "\<lparr>hosts_content = Some [CHR 0x0A], hosts_readable = True, hosts_writable = True\<rparr>"
  let ?w0 = "\<lparr>state = ?f, hosts = ?h0\<rparr>"
  let ?w1 = "\<lparr>state = ?f, hosts = ?h1\<rparr>"
  have fd: "fill_defaults ?ts = ?ts" by (simp add: fill_defaults_def setdefault_def)
  have l: "load ?f = Inr (?ts, ?f)" by (simp add: load_ok try_load_object fd)
  have g: "get_uninstall_started_at ?f = Inr (Some 0, ?f)"
    by (simp add: get_uninstall_started_at_def l as_float_def)
  have u: "uninstall_ready UNINSTALL_DELAY_SECONDS 900 ?f = Inr (True, ?f)"
    by (simp add: uninstall_ready_def g UNINSTALL_DELAY_SECONDS_def)
  have u0: "uninstall_ready UNINSTALL_DELAY_SECONDS 900 (state ?w0) = Inr (True, ?f)"
    and u1: "uninstall_ready UNINSTALL_DELAY_SECONDS 900 (state ?w1) = Inr (True, ?f)"
    using u by simp_all
  have r0: "remove_block (hosts ?w0) = Inl PermissionError" by code_simp
  have r1: "remove_block (hosts ?w1) = Inr ?h1'" by code_simp
  have d1: "dir_writable (state ?w1)" by simp
  have a: "uninstall_app 900 False True ?w0 = Inr ?w0"
    using sensitive_operations_timer [OF u0, THEN conjunct2, THEN conjunct1, rule_format, OF r0]
    by (rule conjunct2)
  have "\<exists>fs'. proceed_uninstall 900 ?w1 = Inr (?w1\<lparr>hosts := ?h1', state := fs'\<rparr>)
           \<and> uninstall_app 900 False True ?w1 = Inr (?w1\<lparr>hosts := ?h1', state := fs'\<rparr>)
           \<and> get_uninstall_started_at fs' = Inr (None, fs')"
    by (rule sensitive_operations_timer [OF u1, THEN conjunct2, THEN conjunct2, THEN conjunct1,
          rule_format, OF conjI [OF r1 d1]])
  then obtain fs' where "proceed_uninstall 900 ?w1 = Inr (?w1\<lparr>hosts := ?h1', state := fs'\<rparr>)"
    and "get_uninstall_started_at fs' = Inr (None, fs')" by (elim exE conjE)
  then have "proceed_uninstall 900 ?w1 = Inr \<lparr>state = fs', hosts = ?h1'\<rparr>
     \<and> get_uninstall_started_at fs' = Inr (None, fs')" by simp
  then have b: "\<exists>fs'. proceed_uninstall 900 ?w1 = Inr \<lparr>state = fs', hosts = ?h1'\<rparr>
     \<and> get_uninstall_started_at fs' = Inr (None, fs')" by (rule exI)
  show ?thesis using a b by (intro conjI)
qed

text \<open>
  C6 as stated fails: the timer is ready, the hosts file holds a block and cannot be
  written, so \<open>remove_block\<close> raises PermissionError; "turn off blocking" returns with
  the state unchanged, and the timer is still stored.
\<close>

theorem proceed_uninstall_failure_counterexample:
  "uninstall_ready UNINSTALL_DELAY_SECONDS 900
       \<lparr>files = (\<lambda>p. None)(StatePath \<mapsto> json_dumps (JObj
           [(''blocked_domains'', str_list [''a.com'']),
            (''pending_uninstall_started_at'', JFloat 0),
            (''onboarding_completed'', JBool True)])),
         dir_writable = True\<rparr>
     = Inr (True,
       \<lparr>files = (\<lambda>p. None)(StatePath \<mapsto> json_dumps (JObj
           [(''blocked_domains'', str_list [''a.com'']),
            (''pending_uninstall_started_at'', JFloat 0),
            (''onboarding_completed'', JBool True)])),
         dir_writable = True\<rparr>)
   \<and> remove_block
       \<lparr>hosts_content = Some (''# AdultBlocker START'' @ [CHR 0x0A] @ ''127.0.0.1 a.com''
           @ [CHR 0x0A] @ ''# AdultBlocker END'' @ [CHR 0x0A]),
         hosts_readable = True, hosts_writable = False\<rparr>
     = Inl PermissionError
   \<and> proceed_uninstall 900
       \<lparr>state = \<lparr>files = (\<lambda>p. None)(StatePath \<mapsto> json_dumps (JObj
           [(''blocked_domains'', str_list [''a.com'']),
            (''pending_uninstall_started_at'', JFloat 0),
            (''onboarding_completed'', JBool True)])),
         dir_writable = True\<rparr>,
        hosts = \<lparr>hosts_content = Some (''# AdultBlocker START'' @ [CHR 0x0A] @ ''127.0.0.1 a.com''
           @ [CHR 0x0A] @ ''# AdultBlocker END'' @ [CHR 0x0A]),
         hosts_readable = True, hosts_writable = False\<rparr>\<rparr>
     = Inr \<lparr>state = \<lparr>files = (\<lambda>p. None)(StatePath \<mapsto> json_dumps (JObj
           [(''blocked_domains'', str_list [''a.com'']),
            (''pending_uninstall_started_at'', JFloat 0),
            (''onboarding_completed'', JBool True)])),
         dir_writable = True\<rparr>,
        hosts = \<lparr>hosts_content = Some (''# AdultBlocker START'' @ [CHR 0x0A] @ ''127.0.0.1 a.com''
           @ [CHR 0x0A] @ ''# AdultBlocker END'' @ [CHR 0x0A]),
         hosts_readable = True, hosts_writable = False\<rparr>\<rparr>
   \<and> get_uninstall_started_at
       \<lparr>files = (\<lambda>p. None)(StatePath \<mapsto> json_dumps (JObj
           [(''blocked_domains'', str_list [''a.com'']),
            (''pending_uninstall_started_at'', JFloat 0),
            (''onboarding_completed'', JBool True)])),
         dir_writable = True\<rparr>
     = Inr (Some 0,
       \<lparr>files = (\<lambda>p. None)(StatePath \<mapsto> json_dumps (JObj
           [(''blocked_domains'', str_list [''a.com'']),
            (''pending_uninstall_started_at'', JFloat 0),
            (''onboarding_completed'', JBool True)])),
         dir_writable = True\<rparr>)"
proof -
  let ?ts = "[(''blocked_domains'', str_list [''a.com'']),
            (''pending_uninstall_started_at'', JFloat 0),
            (''onboarding_completed'', JBool True)]"
  let ?f = "\<lparr>files = (\<lambda>p. None)(StatePath \<mapsto> json_dumps (JObj ?ts)), dir_writable = True\<rparr>"
  let ?h = "\<lparr>hosts_content = Some (''# AdultBlocker START'' @ [CHR 0x0A] @ ''127.0.0.1 a.com''
           @ [CHR 0x0A] @ ''# AdultBlocker END'' @ [CHR 0x0A]),
         hosts_readable = True, hosts_writable = False\<rparr>"
  let ?w = "\<lparr>state = ?f, hosts = ?h\<rparr>"
  have fd: "fill_defaults ?ts = ?ts" by (simp add: fill_defaults_def setdefault_def)
  have l: "load ?f = Inr (?ts, ?f)" by (simp add: load_ok try_load_object fd)
  have g: "get_uninstall_started_at ?f = Inr (Some 0, ?f)"
    by (simp add: get_uninstall_started_at_def l as_float_def)
  have u: "uninstall_ready UNINSTALL_DELAY_SECONDS 900 ?f = Inr (True, ?f)"
    by (simp add: uninstall_ready_def g UNINSTALL_DELAY_SECONDS_def)
  have r: "remove_block ?h = Inl PermissionError" by code_simp
  have rc: "remove_and_cancel ?w = ?w" using r by (simp add: remove_and_cancel_def)
  have us: "update_status ?w = Inr ?w" using g by (simp add: update_status_def)
  have p: "proceed_uninstall 900 ?w = Inr ?w"
    unfolding proceed_uninstall_def using u rc us by simp
  show ?thesis using u r p g by (intro conjI)
qed

end
